theory Spec2Isabelle
  imports Main
begin

section \<open>Threads, schedules and shared state\<close>

text \<open>
  Every program of the repository that shares data between threads is modelled as an
  interleaving of atomic steps. Each thread has a program counter; a schedule is the list
  of threads in the order in which the scheduler lets them run. A thread that is scheduled
  while it cannot move (it waits for a lock, for a join or for a notification, it was never
  created, or it has finished) leaves the state as it is. Each step acts on the one
  shared state, so every thread sees the writes of the steps before its own.

  The thread names are the names of the \<^verbatim>\<open>std::thread\<close> objects of the \<^verbatim>\<open>main\<close> functions;
  \<open>Main\<close> is the thread that runs \<^verbatim>\<open>main\<close>.
\<close>

datatype thread = Main | T1 | T2 | T3 | T4 | T5 | T6

text \<open>
  The globals of a program: the counter \<^verbatim>\<open>count\<close>, the lock \<^verbatim>\<open>m\<close> (its state has type
  \<open>'l\<close>), and what the model adds: per thread the value it has loaded from \<^verbatim>\<open>count\<close>
  and its program counter, and the numbers written to \<^verbatim>\<open>std::cout\<close>. The counter is a
  C++ \<^verbatim>\<open>int\<close>; it never exceeds 6 in these programs, so it is an unbounded integer here.
\<close>

record ('l, 'p) globals =
  count :: int
  m :: 'l
  reg :: "thread \<Rightarrow> int"
  pc :: "thread \<Rightarrow> 'p"
  out :: "int list"

text \<open>
  Modelled from the spec: \<^verbatim>\<open>std::mutex\<close> is a type of the C++ standard library, its body
  is not among the sources. Following section 4.1 of the specification its state is one
  flag \<open>locked\<close>, and \<open>Lock()\<close> blocks the calling thread until the lock is free and then
  marks it held. A call that blocks is the value \<open>None\<close>.
\<close>

definition lock :: "bool \<Rightarrow> bool option" where
  "lock locked = (if locked then None else Some True)"

text \<open>
  Modelled from the spec: \<open>Unlock()\<close> of section 4.1 releases the mutex. It is called by
  the holder only; every call in the sources comes after the caller's own \<open>Lock()\<close>.
\<close>

definition unlock :: "bool \<Rightarrow> bool" where
  "unlock locked = False"

section \<open>mutex.cpp\<close>

text \<open>
  The program counters of \<^verbatim>\<open>add_count\<close> and of \<^verbatim>\<open>main\<close> in mutex.cpp. The statement
  \<^verbatim>\<open>count += 1\<close> on a plain \<^verbatim>\<open>int\<close> is a load followed by a store, two steps between
  which other threads may run.
\<close>

datatype mutex_pc =
    M_not_started | M_lock | M_load | M_store | M_unlock | M_finished
  | M_spawn_t1 | M_spawn_t2 | M_join_t1 | M_join_t2 | M_print | M_returned

type_synonym mutex_state = "(bool, mutex_pc) globals"

text \<open>The initial state: the globals as they are defined, \<^verbatim>\<open>main\<close> about to start.\<close>

definition mutex_init :: mutex_state where
  "mutex_init = \<lparr> count = 0, m = False, reg = (\<lambda>t. 0),
     pc = (\<lambda>t. M_not_started)(Main := M_spawn_t1), out = [] \<rparr>"

text \<open>\<^verbatim>\<open>add_count\<close>: \<^verbatim>\<open>m.lock(); count += 1; m.unlock();\<close> one step at a time.\<close>

definition mutex_add_count :: "thread \<Rightarrow> mutex_state \<Rightarrow> mutex_state option" where
  "mutex_add_count t s = (case pc s t of
      M_lock \<Rightarrow> (case lock (m s) of
          None \<Rightarrow> None
        | Some l \<Rightarrow> Some (s\<lparr> m := l, pc := (pc s)(t := M_load) \<rparr>))
    | M_load \<Rightarrow> Some (s\<lparr> reg := (reg s)(t := count s), pc := (pc s)(t := M_store) \<rparr>)
    | M_store \<Rightarrow> Some (s\<lparr> count := reg s t + 1, pc := (pc s)(t := M_unlock) \<rparr>)
    | M_unlock \<Rightarrow> Some (s\<lparr> m := unlock (m s), pc := (pc s)(t := M_finished) \<rparr>)
    | _ \<Rightarrow> None)"

text \<open>
  \<^verbatim>\<open>main\<close>: the construction of a \<^verbatim>\<open>std::thread\<close> starts the thread, \<^verbatim>\<open>join\<close> waits
  until it has finished, and the value of \<^verbatim>\<open>count\<close> is printed after both joins.
\<close>

definition mutex_main :: "mutex_state \<Rightarrow> mutex_state option" where
  "mutex_main s = (case pc s Main of
      M_spawn_t1 \<Rightarrow> Some (s\<lparr> pc := (pc s)(T1 := M_lock, Main := M_spawn_t2) \<rparr>)
    | M_spawn_t2 \<Rightarrow> Some (s\<lparr> pc := (pc s)(T2 := M_lock, Main := M_join_t1) \<rparr>)
    | M_join_t1 \<Rightarrow> (if pc s T1 = M_finished
        then Some (s\<lparr> pc := (pc s)(Main := M_join_t2) \<rparr>) else None)
    | M_join_t2 \<Rightarrow> (if pc s T2 = M_finished
        then Some (s\<lparr> pc := (pc s)(Main := M_print) \<rparr>) else None)
    | M_print \<Rightarrow> Some (s\<lparr> out := out s @ [count s], pc := (pc s)(Main := M_returned) \<rparr>)
    | _ \<Rightarrow> None)"

text \<open>One step of a thread, the scheduler, and a run under a schedule.\<close>

definition mutex_step :: "thread \<Rightarrow> mutex_state \<Rightarrow> mutex_state option" where
  "mutex_step t s = (if t = Main then mutex_main s
     else if t = T1 \<or> t = T2 then mutex_add_count t s else None)"

definition mutex_sched :: "thread \<Rightarrow> mutex_state \<Rightarrow> mutex_state" where
  "mutex_sched t s = (case mutex_step t s of None \<Rightarrow> s | Some s' \<Rightarrow> s')"

fun mutex_run :: "thread list \<Rightarrow> mutex_state \<Rightarrow> mutex_state" where
  "mutex_run [] s = s"
| "mutex_run (t # ts) s = mutex_run ts (mutex_sched t s)"

text \<open>A thread is in the critical section from the return of \<^verbatim>\<open>m.lock()\<close> up to \<^verbatim>\<open>m.unlock()\<close>.\<close>

definition mutex_in_cs :: "mutex_pc \<Rightarrow> bool" where
  "mutex_in_cs p = (p = M_load \<or> p = M_store \<or> p = M_unlock)"

section \<open>scoped\_lock.cpp\<close>

text \<open>
  Modelled from the spec: \<^verbatim>\<open>std::scoped_lock\<close> is a class of the C++ standard library.
  Following section 4.1 (\<open>LockGuard\<close>) its constructor acquires the mutex.
\<close>

definition scoped_lock_ctor :: "bool \<Rightarrow> bool option" where
  "scoped_lock_ctor locked = lock locked"

text \<open>
  Modelled from the spec: the destructor of the guard, which runs when the scope of the
  object ends, releases the mutex (section 4.1).
\<close>

definition scoped_lock_dtor :: "bool \<Rightarrow> bool" where
  "scoped_lock_dtor locked = unlock locked"

text \<open>
  The program counters of \<^verbatim>\<open>add_count\<close> and of \<^verbatim>\<open>main\<close> in scoped\_lock.cpp; \<^verbatim>\<open>main\<close> is
  the one of mutex.cpp.
\<close>

datatype scoped_pc =
    S_not_started | S_slk_ctor | S_load | S_store | S_slk_dtor | S_finished
  | S_spawn_t1 | S_spawn_t2 | S_join_t1 | S_join_t2 | S_print | S_returned

type_synonym scoped_state = "(bool, scoped_pc) globals"

text \<open>The initial state.\<close>

definition scoped_init :: scoped_state where
  "scoped_init = \<lparr> count = 0, m = False, reg = (\<lambda>t. 0),
     pc = (\<lambda>t. S_not_started)(Main := S_spawn_t1), out = [] \<rparr>"

text \<open>
  \<^verbatim>\<open>add_count\<close>: \<^verbatim>\<open>std::scoped_lock slk(m); count += 1;\<close> and the destruction of
  \<^verbatim>\<open>slk\<close> when the function ends.
\<close>

definition scoped_add_count :: "thread \<Rightarrow> scoped_state \<Rightarrow> scoped_state option" where
  "scoped_add_count t s = (case pc s t of
      S_slk_ctor \<Rightarrow> (case scoped_lock_ctor (m s) of
          None \<Rightarrow> None
        | Some l \<Rightarrow> Some (s\<lparr> m := l, pc := (pc s)(t := S_load) \<rparr>))
    | S_load \<Rightarrow> Some (s\<lparr> reg := (reg s)(t := count s), pc := (pc s)(t := S_store) \<rparr>)
    | S_store \<Rightarrow> Some (s\<lparr> count := reg s t + 1, pc := (pc s)(t := S_slk_dtor) \<rparr>)
    | S_slk_dtor \<Rightarrow> Some (s\<lparr> m := scoped_lock_dtor (m s), pc := (pc s)(t := S_finished) \<rparr>)
    | _ \<Rightarrow> None)"

text \<open>\<^verbatim>\<open>main\<close>, as in mutex.cpp.\<close>

definition scoped_main :: "scoped_state \<Rightarrow> scoped_state option" where
  "scoped_main s = (case pc s Main of
      S_spawn_t1 \<Rightarrow> Some (s\<lparr> pc := (pc s)(T1 := S_slk_ctor, Main := S_spawn_t2) \<rparr>)
    | S_spawn_t2 \<Rightarrow> Some (s\<lparr> pc := (pc s)(T2 := S_slk_ctor, Main := S_join_t1) \<rparr>)
    | S_join_t1 \<Rightarrow> (if pc s T1 = S_finished
        then Some (s\<lparr> pc := (pc s)(Main := S_join_t2) \<rparr>) else None)
    | S_join_t2 \<Rightarrow> (if pc s T2 = S_finished
        then Some (s\<lparr> pc := (pc s)(Main := S_print) \<rparr>) else None)
    | S_print \<Rightarrow> Some (s\<lparr> out := out s @ [count s], pc := (pc s)(Main := S_returned) \<rparr>)
    | _ \<Rightarrow> None)"

text \<open>One step of a thread, the scheduler, and a run under a schedule.\<close>

definition scoped_step :: "thread \<Rightarrow> scoped_state \<Rightarrow> scoped_state option" where
  "scoped_step t s = (if t = Main then scoped_main s
     else if t = T1 \<or> t = T2 then scoped_add_count t s else None)"

definition scoped_sched :: "thread \<Rightarrow> scoped_state \<Rightarrow> scoped_state" where
  "scoped_sched t s = (case scoped_step t s of None \<Rightarrow> s | Some s' \<Rightarrow> s')"

fun scoped_run :: "thread list \<Rightarrow> scoped_state \<Rightarrow> scoped_state" where
  "scoped_run [] s = s"
| "scoped_run (t # ts) s = scoped_run ts (scoped_sched t s)"

text \<open>The critical section is the scope of \<^verbatim>\<open>slk\<close>: from its construction to its destruction.\<close>

definition scoped_in_cs :: "scoped_pc \<Rightarrow> bool" where
  "scoped_in_cs p = (p = S_load \<or> p = S_store \<or> p = S_slk_dtor)"

section \<open>One call of add\_count and the ways to leave it\<close>

text \<open>
  The threads above leave \<^verbatim>\<open>add_count\<close> on one path only, since \<^verbatim>\<open>count += 1\<close> on an
  \<^verbatim>\<open>int\<close> completes. The comment that ends mutex.cpp is about the other paths: an
  exception thrown between \<^verbatim>\<open>m.lock()\<close> and \<^verbatim>\<open>m.unlock()\<close>. To speak about them, one call
  of \<^verbatim>\<open>add_count\<close> is also modelled as a function in which the statement inside the locked
  region is a parameter: from the value of \<^verbatim>\<open>count\<close> it gives the way control leaves the
  statement and the new value of \<^verbatim>\<open>count\<close>. The statement of the sources is
  \<open>count_plus_1\<close>; the caller of \<^verbatim>\<open>add_count\<close> is any code that handles what the
  statement throws.
\<close>

datatype exit_path = Falls_through | Returns_early | Raises

type_synonym body = "int \<Rightarrow> exit_path \<times> int"

definition count_plus_1 :: body where
  "count_plus_1 c = (Falls_through, c + 1)"

text \<open>
  mutex.cpp: \<^verbatim>\<open>m.lock(); count += 1; m.unlock();\<close>. Control reaches \<^verbatim>\<open>m.unlock()\<close> only
  when the statement before it falls through. The result \<open>None\<close> is a call that blocks
  in \<^verbatim>\<open>m.lock()\<close>.
\<close>

definition mutex_add_count_call ::
  "body \<Rightarrow> (bool, 'p) globals \<Rightarrow> (exit_path \<times> (bool, 'p) globals) option" where
  "mutex_add_count_call body s = (case lock (m s) of
      None \<Rightarrow> None
    | Some l \<Rightarrow> (case body (count s) of
          (Falls_through, c) \<Rightarrow> Some (Falls_through, s\<lparr> count := c, m := unlock l \<rparr>)
        | (e, c) \<Rightarrow> Some (e, s\<lparr> count := c, m := l \<rparr>)))"

text \<open>
  Modelled from the spec: the scope of a guard. Section 4.1: \<open>LockGuard(m)\<close> acquires on
  construction and releases on destruction on every exit path (normal return, early
  return, or propagated failure). The block inside the scope is a function of the state
  in which it starts, which gives the way control leaves it and the state it leaves
  behind. The constructor blocks while the mutex is held; the block runs in the state
  after the acquisition; the destructor runs whichever way control leaves the block.
  scoped\_lock.cpp has one such scope, with one way out; the other ways are those of the
  specification.
\<close>

definition lock_guard_scope ::
  "((bool, 'p) globals \<Rightarrow> exit_path \<times> (bool, 'p) globals) \<Rightarrow> (bool, 'p) globals \<Rightarrow>
   (exit_path \<times> (bool, 'p) globals) option" where
  "lock_guard_scope block s = (case scoped_lock_ctor (m s) of
      None \<Rightarrow> None
    | Some l \<Rightarrow> (case block (s\<lparr> m := l \<rparr>) of
          (e, s2) \<Rightarrow> Some (e, s2\<lparr> m := scoped_lock_dtor (m s2) \<rparr>)))"

text \<open>
  scoped\_lock.cpp: \<^verbatim>\<open>std::scoped_lock slk(m); count += 1;\<close>. The scope of \<^verbatim>\<open>slk\<close> is
  the body of \<^verbatim>\<open>add_count\<close>, and the block inside it is the one statement on \<^verbatim>\<open>count\<close>.
\<close>

definition scoped_add_count_call ::
  "body \<Rightarrow> (bool, 'p) globals \<Rightarrow> (exit_path \<times> (bool, 'p) globals) option" where
  "scoped_add_count_call body s =
     lock_guard_scope (\<lambda>s1. case body (count s1) of (e, c) \<Rightarrow> (e, s1\<lparr> count := c \<rparr>)) s"

text \<open>
  A state of mutex.cpp in which the mutex is held although no thread is between
  \<^verbatim>\<open>m.lock()\<close> and \<^verbatim>\<open>m.unlock()\<close>.
\<close>

definition mutex_stuck :: "mutex_state \<Rightarrow> bool" where
  "mutex_stuck s = (m s \<and> \<not> mutex_in_cs (pc s T1) \<and> \<not> mutex_in_cs (pc s T2))"

section \<open>Invariants of mutex.cpp and scoped\_lock.cpp\<close>

text \<open>
  The mutex is held exactly while one of the two threads is in its critical section, the
  counter counts the increments that are complete, a loaded value is still the value of
  the counter when it is stored back, and \<^verbatim>\<open>main\<close> is past a join only when the joined
  thread has finished.
\<close>

definition mutex_inv :: "mutex_state \<Rightarrow> bool" where
  "mutex_inv s = (
     (m s = (mutex_in_cs (pc s T1) \<or> mutex_in_cs (pc s T2))) \<and>
     \<not> (mutex_in_cs (pc s T1) \<and> mutex_in_cs (pc s T2)) \<and>
     count s = (if pc s T1 = M_unlock \<or> pc s T1 = M_finished then 1 else 0)
             + (if pc s T2 = M_unlock \<or> pc s T2 = M_finished then 1 else 0) \<and>
     (pc s T1 = M_store \<longrightarrow> reg s T1 = count s) \<and>
     (pc s T2 = M_store \<longrightarrow> reg s T2 = count s) \<and>
     (pc s Main = M_spawn_t1 \<longrightarrow> pc s T1 = M_not_started \<and> pc s T2 = M_not_started) \<and>
     (pc s Main = M_spawn_t2 \<longrightarrow> pc s T2 = M_not_started) \<and>
     (pc s Main = M_join_t2 \<or> pc s Main = M_print \<or> pc s Main = M_returned
        \<longrightarrow> pc s T1 = M_finished) \<and>
     (pc s Main = M_print \<or> pc s Main = M_returned \<longrightarrow> pc s T2 = M_finished) \<and>
     \<not> mutex_in_cs (pc s Main) \<and>
     pc s T3 = M_not_started \<and> pc s T4 = M_not_started \<and>
     pc s T5 = M_not_started \<and> pc s T6 = M_not_started \<and>
     out s = (if pc s Main = M_returned then [2] else []))"

definition scoped_inv :: "scoped_state \<Rightarrow> bool" where
  "scoped_inv s = (
     (m s = (scoped_in_cs (pc s T1) \<or> scoped_in_cs (pc s T2))) \<and>
     \<not> (scoped_in_cs (pc s T1) \<and> scoped_in_cs (pc s T2)) \<and>
     count s = (if pc s T1 = S_slk_dtor \<or> pc s T1 = S_finished then 1 else 0)
             + (if pc s T2 = S_slk_dtor \<or> pc s T2 = S_finished then 1 else 0) \<and>
     (pc s T1 = S_store \<longrightarrow> reg s T1 = count s) \<and>
     (pc s T2 = S_store \<longrightarrow> reg s T2 = count s) \<and>
     (pc s Main = S_spawn_t1 \<longrightarrow> pc s T1 = S_not_started \<and> pc s T2 = S_not_started) \<and>
     (pc s Main = S_spawn_t2 \<longrightarrow> pc s T2 = S_not_started) \<and>
     (pc s Main = S_join_t2 \<or> pc s Main = S_print \<or> pc s Main = S_returned
        \<longrightarrow> pc s T1 = S_finished) \<and>
     (pc s Main = S_print \<or> pc s Main = S_returned \<longrightarrow> pc s T2 = S_finished) \<and>
     \<not> scoped_in_cs (pc s Main) \<and>
     pc s T3 = S_not_started \<and> pc s T4 = S_not_started \<and>
     pc s T5 = S_not_started \<and> pc s T6 = S_not_started \<and>
     out s = (if pc s Main = S_returned then [2] else []))"

section \<open>Progress of mutex.cpp and scoped\_lock.cpp\<close>

text \<open>
  Which locations belong to \<^verbatim>\<open>add_count\<close>, and which threads \<^verbatim>\<open>main\<close> has started; a
  measure of the work that is left, which every step lowers; and the fair schedule, in
  rounds that schedule every thread once.
\<close>

definition mutex_worker_pc :: "mutex_pc \<Rightarrow> bool" where
  "mutex_worker_pc p = (p = M_not_started \<or> p = M_lock \<or> p = M_load \<or> p = M_store \<or>
     p = M_unlock \<or> p = M_finished)"

definition mutex_typed :: "mutex_state \<Rightarrow> bool" where
  "mutex_typed s = (mutex_worker_pc (pc s T1) \<and> mutex_worker_pc (pc s T2) \<and>
     \<not> mutex_worker_pc (pc s Main) \<and>
     (pc s T1 = M_not_started) = (pc s Main = M_spawn_t1) \<and>
     (pc s T2 = M_not_started) = (pc s Main = M_spawn_t1 \<or> pc s Main = M_spawn_t2))"

fun mutex_rank :: "mutex_pc \<Rightarrow> nat" where
  "mutex_rank M_not_started = 4"
| "mutex_rank M_lock = 4"
| "mutex_rank M_load = 3"
| "mutex_rank M_store = 2"
| "mutex_rank M_unlock = 1"
| "mutex_rank M_finished = 0"
| "mutex_rank M_spawn_t1 = 5"
| "mutex_rank M_spawn_t2 = 4"
| "mutex_rank M_join_t1 = 3"
| "mutex_rank M_join_t2 = 2"
| "mutex_rank M_print = 1"
| "mutex_rank M_returned = 0"

definition mutex_measure :: "mutex_state \<Rightarrow> nat" where
  "mutex_measure s = mutex_rank (pc s Main) + mutex_rank (pc s T1) + mutex_rank (pc s T2)"

definition mutex_round :: "thread list" where
  "mutex_round = [Main, T1, T2]"

fun mutex_rounds :: "nat \<Rightarrow> thread list" where
  "mutex_rounds 0 = []"
| "mutex_rounds (Suc n) = mutex_round @ mutex_rounds n"

definition scoped_worker_pc :: "scoped_pc \<Rightarrow> bool" where
  "scoped_worker_pc p = (p = S_not_started \<or> p = S_slk_ctor \<or> p = S_load \<or> p = S_store \<or>
     p = S_slk_dtor \<or> p = S_finished)"

definition scoped_typed :: "scoped_state \<Rightarrow> bool" where
  "scoped_typed s = (scoped_worker_pc (pc s T1) \<and> scoped_worker_pc (pc s T2) \<and>
     \<not> scoped_worker_pc (pc s Main) \<and>
     (pc s T1 = S_not_started) = (pc s Main = S_spawn_t1) \<and>
     (pc s T2 = S_not_started) = (pc s Main = S_spawn_t1 \<or> pc s Main = S_spawn_t2))"

fun scoped_rank :: "scoped_pc \<Rightarrow> nat" where
  "scoped_rank S_not_started = 4"
| "scoped_rank S_slk_ctor = 4"
| "scoped_rank S_load = 3"
| "scoped_rank S_store = 2"
| "scoped_rank S_slk_dtor = 1"
| "scoped_rank S_finished = 0"
| "scoped_rank S_spawn_t1 = 5"
| "scoped_rank S_spawn_t2 = 4"
| "scoped_rank S_join_t1 = 3"
| "scoped_rank S_join_t2 = 2"
| "scoped_rank S_print = 1"
| "scoped_rank S_returned = 0"

definition scoped_measure :: "scoped_state \<Rightarrow> nat" where
  "scoped_measure s = scoped_rank (pc s Main) + scoped_rank (pc s T1) + scoped_rank (pc s T2)"

definition scoped_round :: "thread list" where
  "scoped_round = [Main, T1, T2]"

fun scoped_rounds :: "nat \<Rightarrow> thread list" where
  "scoped_rounds 0 = []"
| "scoped_rounds (Suc n) = scoped_round @ scoped_rounds n"

section \<open>The end-to-end scenario: repeated calls of add\_count\<close>

text \<open>
  Modelled from the spec: the end-to-end scenario of section 8 is a test harness that is
  not among the sources. It is \<^verbatim>\<open>main\<close> of mutex.cpp with threads that call \<^verbatim>\<open>add_count\<close>
  \<open>n\<close> times each, where the sources call it once. The state of the harness is the state
  of the program and, per thread, the number of calls it has still to complete.
\<close>

type_synonym mutex_scenario = "mutex_state \<times> (thread \<Rightarrow> nat)"

text \<open>
  Modelled from the spec: the harness starts from the initial state of mutex.cpp, each
  thread with \<open>n\<close> calls to make.
\<close>

definition mutex_scenario_init :: "nat \<Rightarrow> mutex_scenario" where
  "mutex_scenario_init n = (mutex_init, \<lambda>t. n)"

text \<open>
  Modelled from the spec: the body of a thread of the harness, the loop
  \<^verbatim>\<open>for (i = 0; i < n; i++) add_count();\<close> around \<^verbatim>\<open>add_count\<close> of mutex.cpp. A thread at
  \<open>M_lock\<close> is at the head of the loop: with no call left it finishes, otherwise it
  takes the first step of the next call. The steps of a call are those of
  \<open>mutex_add_count\<close>; when a call returns the thread is back at the head of the loop,
  with one call less to make.
\<close>

definition mutex_calls :: "thread \<Rightarrow> mutex_scenario \<Rightarrow> mutex_scenario option" where
  "mutex_calls t sr = (case sr of (s, r) \<Rightarrow>
     if pc s t = M_lock \<and> r t = 0 then Some (s\<lparr> pc := (pc s)(t := M_finished) \<rparr>, r)
     else (case mutex_add_count t s of
          None \<Rightarrow> None
        | Some s' \<Rightarrow> if pc s' t = M_finished
            then Some (s'\<lparr> pc := (pc s')(t := M_lock) \<rparr>, r(t := r t - 1))
            else Some (s', r)))"

text \<open>
  Modelled from the spec: one step of a thread of the harness; \<^verbatim>\<open>main\<close> is \<open>mutex_main\<close>,
  unchanged. Then the scheduler and a run under a schedule, as for the program.
\<close>

definition mutex_scenario_step :: "thread \<Rightarrow> mutex_scenario \<Rightarrow> mutex_scenario option" where
  "mutex_scenario_step t sr = (case sr of (s, r) \<Rightarrow>
     if t = Main then (case mutex_main s of None \<Rightarrow> None | Some s' \<Rightarrow> Some (s', r))
     else if t = T1 \<or> t = T2 then mutex_calls t (s, r) else None)"

definition mutex_scenario_sched :: "thread \<Rightarrow> mutex_scenario \<Rightarrow> mutex_scenario" where
  "mutex_scenario_sched t sr = (case mutex_scenario_step t sr of None \<Rightarrow> sr | Some sr' \<Rightarrow> sr')"

fun mutex_scenario_run :: "thread list \<Rightarrow> mutex_scenario \<Rightarrow> mutex_scenario" where
  "mutex_scenario_run [] sr = sr"
| "mutex_scenario_run (t # ts) sr = mutex_scenario_run ts (mutex_scenario_sched t sr)"

text \<open>
  The invariant of the harness. The increments a thread has completed are its calls that
  have returned and, when it is between its store and its unlock, the one of the call it
  is in.
\<close>

definition mutex_calls_done :: "nat \<Rightarrow> mutex_scenario \<Rightarrow> thread \<Rightarrow> int" where
  "mutex_calls_done n sr t = int n - int (snd sr t) + of_bool (pc (fst sr) t = M_unlock)"

definition mutex_worker_inv :: "nat \<Rightarrow> mutex_scenario \<Rightarrow> thread \<Rightarrow> bool" where
  "mutex_worker_inv n sr t = (snd sr t \<le> n \<and>
     (pc (fst sr) t = M_not_started \<longrightarrow> snd sr t = n) \<and>
     (pc (fst sr) t = M_finished \<longrightarrow> snd sr t = 0) \<and>
     (mutex_in_cs (pc (fst sr) t) \<longrightarrow> 0 < snd sr t) \<and>
     (pc (fst sr) t = M_store \<longrightarrow> reg (fst sr) t = count (fst sr)) \<and>
     (pc (fst sr) t = M_not_started \<or> pc (fst sr) t = M_lock \<or> mutex_in_cs (pc (fst sr) t) \<or>
      pc (fst sr) t = M_finished))"

definition mutex_scenario_inv :: "nat \<Rightarrow> mutex_scenario \<Rightarrow> bool" where
  "mutex_scenario_inv n sr = (
     (m (fst sr) = (mutex_in_cs (pc (fst sr) T1) \<or> mutex_in_cs (pc (fst sr) T2))) \<and>
     \<not> (mutex_in_cs (pc (fst sr) T1) \<and> mutex_in_cs (pc (fst sr) T2)) \<and>
     count (fst sr) = mutex_calls_done n sr T1 + mutex_calls_done n sr T2 \<and>
     mutex_worker_inv n sr T1 \<and> mutex_worker_inv n sr T2 \<and>
     (pc (fst sr) T1 = M_not_started) = (pc (fst sr) Main = M_spawn_t1) \<and>
     (pc (fst sr) T2 = M_not_started) =
        (pc (fst sr) Main = M_spawn_t1 \<or> pc (fst sr) Main = M_spawn_t2) \<and>
     (pc (fst sr) Main = M_join_t2 \<or> pc (fst sr) Main = M_print \<or> pc (fst sr) Main = M_returned
        \<longrightarrow> pc (fst sr) T1 = M_finished) \<and>
     (pc (fst sr) Main = M_print \<or> pc (fst sr) Main = M_returned \<longrightarrow> pc (fst sr) T2 = M_finished) \<and>
     (pc (fst sr) Main = M_spawn_t1 \<or> pc (fst sr) Main = M_spawn_t2 \<or> pc (fst sr) Main = M_join_t1 \<or>
      pc (fst sr) Main = M_join_t2 \<or> pc (fst sr) Main = M_print \<or> pc (fst sr) Main = M_returned) \<and>
     out (fst sr) = (if pc (fst sr) Main = M_returned then [2 * int n] else []))"

text \<open>The measure of the work that is left in the harness, and its fair schedule.\<close>

fun mutex_call_rank :: "mutex_pc \<Rightarrow> nat" where
  "mutex_call_rank M_not_started = 3"
| "mutex_call_rank M_lock = 3"
| "mutex_call_rank M_load = 2"
| "mutex_call_rank M_store = 1"
| "mutex_call_rank M_unlock = 0"
| "mutex_call_rank M_finished = 0"
| "mutex_call_rank M_spawn_t1 = 5"
| "mutex_call_rank M_spawn_t2 = 4"
| "mutex_call_rank M_join_t1 = 3"
| "mutex_call_rank M_join_t2 = 2"
| "mutex_call_rank M_print = 1"
| "mutex_call_rank M_returned = 0"

definition mutex_scenario_measure :: "mutex_scenario \<Rightarrow> nat" where
  "mutex_scenario_measure sr = mutex_call_rank (pc (fst sr) Main) +
     (4 * snd sr T1 + mutex_call_rank (pc (fst sr) T1)) +
     (4 * snd sr T2 + mutex_call_rank (pc (fst sr) T2))"

definition mutex_scenario_round :: "thread list" where
  "mutex_scenario_round = [Main, T1, T2]"

fun mutex_scenario_rounds :: "nat \<Rightarrow> thread list" where
  "mutex_scenario_rounds 0 = []"
| "mutex_scenario_rounds (Suc k) = mutex_scenario_round @ mutex_scenario_rounds k"

text \<open>
  Modelled from the spec: the end-to-end scenario of section 8 is a test harness that is
  not among the sources. It is \<^verbatim>\<open>main\<close> of scoped\_lock.cpp with threads that call \<^verbatim>\<open>add_count\<close>
  \<open>n\<close> times each, where the sources call it once. The state of the harness is the state
  of the program and, per thread, the number of calls it has still to complete.
\<close>

type_synonym scoped_scenario = "scoped_state \<times> (thread \<Rightarrow> nat)"

text \<open>
  Modelled from the spec: the harness starts from the initial state of scoped\_lock.cpp, each
  thread with \<open>n\<close> calls to make.
\<close>

definition scoped_scenario_init :: "nat \<Rightarrow> scoped_scenario" where
  "scoped_scenario_init n = (scoped_init, \<lambda>t. n)"

text \<open>
  Modelled from the spec: the body of a thread of the harness, the loop
  \<^verbatim>\<open>for (i = 0; i < n; i++) add_count();\<close> around \<^verbatim>\<open>add_count\<close> of scoped\_lock.cpp. A thread at
  \<open>S_slk_ctor\<close> is at the head of the loop: with no call left it finishes, otherwise it
  takes the first step of the next call. The steps of a call are those of
  \<open>scoped_add_count\<close>; when a call returns the thread is back at the head of the loop,
  with one call less to make.
\<close>

definition scoped_calls :: "thread \<Rightarrow> scoped_scenario \<Rightarrow> scoped_scenario option" where
  "scoped_calls t sr = (case sr of (s, r) \<Rightarrow>
     if pc s t = S_slk_ctor \<and> r t = 0 then Some (s\<lparr> pc := (pc s)(t := S_finished) \<rparr>, r)
     else (case scoped_add_count t s of
          None \<Rightarrow> None
        | Some s' \<Rightarrow> if pc s' t = S_finished
            then Some (s'\<lparr> pc := (pc s')(t := S_slk_ctor) \<rparr>, r(t := r t - 1))
            else Some (s', r)))"

text \<open>
  Modelled from the spec: one step of a thread of the harness; \<^verbatim>\<open>main\<close> is \<open>scoped_main\<close>,
  unchanged. Then the scheduler and a run under a schedule, as for the program.
\<close>

definition scoped_scenario_step :: "thread \<Rightarrow> scoped_scenario \<Rightarrow> scoped_scenario option" where
  "scoped_scenario_step t sr = (case sr of (s, r) \<Rightarrow>
     if t = Main then (case scoped_main s of None \<Rightarrow> None | Some s' \<Rightarrow> Some (s', r))
     else if t = T1 \<or> t = T2 then scoped_calls t (s, r) else None)"

definition scoped_scenario_sched :: "thread \<Rightarrow> scoped_scenario \<Rightarrow> scoped_scenario" where
  "scoped_scenario_sched t sr = (case scoped_scenario_step t sr of None \<Rightarrow> sr | Some sr' \<Rightarrow> sr')"

fun scoped_scenario_run :: "thread list \<Rightarrow> scoped_scenario \<Rightarrow> scoped_scenario" where
  "scoped_scenario_run [] sr = sr"
| "scoped_scenario_run (t # ts) sr = scoped_scenario_run ts (scoped_scenario_sched t sr)"

text \<open>
  The invariant of the harness. The increments a thread has completed are its calls that
  have returned and, when it is between its store and the destruction of its guard, the one of the call it
  is in.
\<close>

definition scoped_calls_done :: "nat \<Rightarrow> scoped_scenario \<Rightarrow> thread \<Rightarrow> int" where
  "scoped_calls_done n sr t = int n - int (snd sr t) + of_bool (pc (fst sr) t = S_slk_dtor)"

definition scoped_worker_inv :: "nat \<Rightarrow> scoped_scenario \<Rightarrow> thread \<Rightarrow> bool" where
  "scoped_worker_inv n sr t = (snd sr t \<le> n \<and>
     (pc (fst sr) t = S_not_started \<longrightarrow> snd sr t = n) \<and>
     (pc (fst sr) t = S_finished \<longrightarrow> snd sr t = 0) \<and>
     (scoped_in_cs (pc (fst sr) t) \<longrightarrow> 0 < snd sr t) \<and>
     (pc (fst sr) t = S_store \<longrightarrow> reg (fst sr) t = count (fst sr)) \<and>
     (pc (fst sr) t = S_not_started \<or> pc (fst sr) t = S_slk_ctor \<or> scoped_in_cs (pc (fst sr) t) \<or>
      pc (fst sr) t = S_finished))"

definition scoped_scenario_inv :: "nat \<Rightarrow> scoped_scenario \<Rightarrow> bool" where
  "scoped_scenario_inv n sr = (
     (m (fst sr) = (scoped_in_cs (pc (fst sr) T1) \<or> scoped_in_cs (pc (fst sr) T2))) \<and>
     \<not> (scoped_in_cs (pc (fst sr) T1) \<and> scoped_in_cs (pc (fst sr) T2)) \<and>
     count (fst sr) = scoped_calls_done n sr T1 + scoped_calls_done n sr T2 \<and>
     scoped_worker_inv n sr T1 \<and> scoped_worker_inv n sr T2 \<and>
     (pc (fst sr) T1 = S_not_started) = (pc (fst sr) Main = S_spawn_t1) \<and>
     (pc (fst sr) T2 = S_not_started) =
        (pc (fst sr) Main = S_spawn_t1 \<or> pc (fst sr) Main = S_spawn_t2) \<and>
     (pc (fst sr) Main = S_join_t2 \<or> pc (fst sr) Main = S_print \<or> pc (fst sr) Main = S_returned
        \<longrightarrow> pc (fst sr) T1 = S_finished) \<and>
     (pc (fst sr) Main = S_print \<or> pc (fst sr) Main = S_returned \<longrightarrow> pc (fst sr) T2 = S_finished) \<and>
     (pc (fst sr) Main = S_spawn_t1 \<or> pc (fst sr) Main = S_spawn_t2 \<or> pc (fst sr) Main = S_join_t1 \<or>
      pc (fst sr) Main = S_join_t2 \<or> pc (fst sr) Main = S_print \<or> pc (fst sr) Main = S_returned) \<and>
     out (fst sr) = (if pc (fst sr) Main = S_returned then [2 * int n] else []))"

text \<open>The measure of the work that is left in the harness, and its fair schedule.\<close>

fun scoped_call_rank :: "scoped_pc \<Rightarrow> nat" where
  "scoped_call_rank S_not_started = 3"
| "scoped_call_rank S_slk_ctor = 3"
| "scoped_call_rank S_load = 2"
| "scoped_call_rank S_store = 1"
| "scoped_call_rank S_slk_dtor = 0"
| "scoped_call_rank S_finished = 0"
| "scoped_call_rank S_spawn_t1 = 5"
| "scoped_call_rank S_spawn_t2 = 4"
| "scoped_call_rank S_join_t1 = 3"
| "scoped_call_rank S_join_t2 = 2"
| "scoped_call_rank S_print = 1"
| "scoped_call_rank S_returned = 0"

definition scoped_scenario_measure :: "scoped_scenario \<Rightarrow> nat" where
  "scoped_scenario_measure sr = scoped_call_rank (pc (fst sr) Main) +
     (4 * snd sr T1 + scoped_call_rank (pc (fst sr) T1)) +
     (4 * snd sr T2 + scoped_call_rank (pc (fst sr) T2))"

definition scoped_scenario_round :: "thread list" where
  "scoped_scenario_round = [Main, T1, T2]"

fun scoped_scenario_rounds :: "nat \<Rightarrow> thread list" where
  "scoped_scenario_rounds 0 = []"
| "scoped_scenario_rounds (Suc k) = scoped_scenario_round @ scoped_scenario_rounds k"

section \<open>condition\_variable.cpp\<close>

text \<open>
  The program counters of \<^verbatim>\<open>add_count_and_notify\<close> (prefix \<open>A\<close>), of \<^verbatim>\<open>waiter_thread\<close>
  (prefix \<open>W\<close>) and of \<^verbatim>\<open>main\<close>. The call \<^verbatim>\<open>cv.wait(lk, pred)\<close> takes the locations
  \<open>W_wait_pred\<close> (the predicate is evaluated), \<open>W_blocked\<close> (the thread is suspended
  on \<^verbatim>\<open>cv\<close>) and \<open>W_relock\<close> (the thread has been woken and acquires the mutex again).
\<close>

datatype cv_pc =
    C_not_started
  | A_slk_ctor | A_load | A_store | A_test | A_notify | A_slk_dtor
  | W_lk_ctor | W_wait_pred | W_blocked | W_relock | W_print | W_lk_dtor
  | C_finished
  | C_spawn_t1 | C_spawn_t2 | C_spawn_t3 | C_join_t1 | C_join_t2 | C_join_t3 | C_returned

type_synonym cv_state = "(bool, cv_pc) globals"

text \<open>
  Modelled from the spec: \<^verbatim>\<open>std::condition_variable\<close> is a class of the C++ standard
  library. Following section 4.2, \<open>NotifyOne()\<close> wakes one thread that is blocked on
  the condition variable, if there is one, and has no effect otherwise. The threads
  blocked on \<^verbatim>\<open>cv\<close> are those at \<open>W_blocked\<close>; which of them is chosen is unspecified,
  here it is the first in the order of the list.
\<close>

fun wake_first :: "thread list \<Rightarrow> (thread \<Rightarrow> cv_pc) \<Rightarrow> (thread \<Rightarrow> cv_pc)" where
  "wake_first [] pcs = pcs"
| "wake_first (t # ts) pcs = (if pcs t = W_blocked then pcs(t := W_relock) else wake_first ts pcs)"

text \<open>Modelled from the spec: \<^verbatim>\<open>cv.notify_one()\<close>, over all threads of the program.\<close>

definition notify_one :: "(thread \<Rightarrow> cv_pc) \<Rightarrow> (thread \<Rightarrow> cv_pc)" where
  "notify_one pcs = wake_first [Main, T1, T2, T3, T4, T5, T6] pcs"

text \<open>
  Modelled from the spec: \<open>Wait(guard, predicate)\<close> of section 4.2 is the loop
  \<^verbatim>\<open>while (!pred()) wait(lk)\<close>. One pass of it, given the value of the predicate and
  the state of the mutex, which the caller holds: when the predicate is true the call
  returns with the mutex still held; when it is false the mutex is released and the
  thread suspended, in one atomic step.
\<close>

datatype wait_outcome = Wait_returns | Wait_suspends

definition cv_wait :: "bool \<Rightarrow> bool \<Rightarrow> wait_outcome \<times> bool" where
  "cv_wait pred locked = (if pred then (Wait_returns, locked) else (Wait_suspends, unlock locked))"

text \<open>
  Modelled from the spec: a thread that has been woken acquires the mutex again before it
  evaluates the predicate again (section 4.2).
\<close>

definition cv_wait_reacquire :: "bool \<Rightarrow> bool option" where
  "cv_wait_reacquire locked = lock locked"

text \<open>
  Modelled from the spec: \<^verbatim>\<open>std::unique_lock\<close> is a class of the C++ standard library; like
  the guard of section 4.1 its constructor acquires the mutex.
\<close>

definition unique_lock_ctor :: "bool \<Rightarrow> bool option" where
  "unique_lock_ctor locked = lock locked"

text \<open>Modelled from the spec: the destructor of \<^verbatim>\<open>std::unique_lock\<close> releases the mutex.\<close>

definition unique_lock_dtor :: "bool \<Rightarrow> bool" where
  "unique_lock_dtor locked = unlock locked"

text \<open>The initial state: the globals as they are defined, \<^verbatim>\<open>main\<close> about to start.\<close>

definition cv_init :: cv_state where
  "cv_init = \<lparr> count = 0, m = False, reg = (\<lambda>t. 0),
     pc = (\<lambda>t. C_not_started)(Main := C_spawn_t1), out = [] \<rparr>"

text \<open>
  \<^verbatim>\<open>add_count_and_notify\<close>: under the guard \<^verbatim>\<open>slk\<close> the counter is incremented (a load
  and a store), then compared with 2, and \<^verbatim>\<open>cv.notify_one()\<close> is called when it is 2.
\<close>

definition add_count_and_notify :: "thread \<Rightarrow> cv_state \<Rightarrow> cv_state option" where
  "add_count_and_notify t s = (case pc s t of
      A_slk_ctor \<Rightarrow> (case scoped_lock_ctor (m s) of
          None \<Rightarrow> None
        | Some l \<Rightarrow> Some (s\<lparr> m := l, pc := (pc s)(t := A_load) \<rparr>))
    | A_load \<Rightarrow> Some (s\<lparr> reg := (reg s)(t := count s), pc := (pc s)(t := A_store) \<rparr>)
    | A_store \<Rightarrow> Some (s\<lparr> count := reg s t + 1, pc := (pc s)(t := A_test) \<rparr>)
    | A_test \<Rightarrow> Some (s\<lparr> pc := (pc s)(t := (if count s = 2 then A_notify else A_slk_dtor)) \<rparr>)
    | A_notify \<Rightarrow> Some (s\<lparr> pc := (notify_one (pc s))(t := A_slk_dtor) \<rparr>)
    | A_slk_dtor \<Rightarrow> Some (s\<lparr> m := scoped_lock_dtor (m s), pc := (pc s)(t := C_finished) \<rparr>)
    | _ \<Rightarrow> None)"

text \<open>
  \<^verbatim>\<open>waiter_thread\<close>: \<^verbatim>\<open>std::unique_lock lk(m); cv.wait(lk, []{return count == 2;});\<close>
  and the print of \<^verbatim>\<open>count\<close>; \<^verbatim>\<open>lk\<close> is destroyed when the function ends.
\<close>

definition waiter_thread :: "thread \<Rightarrow> cv_state \<Rightarrow> cv_state option" where
  "waiter_thread t s = (case pc s t of
      W_lk_ctor \<Rightarrow> (case unique_lock_ctor (m s) of
          None \<Rightarrow> None
        | Some l \<Rightarrow> Some (s\<lparr> m := l, pc := (pc s)(t := W_wait_pred) \<rparr>))
    | W_wait_pred \<Rightarrow> (case cv_wait (count s = 2) (m s) of
          (Wait_returns, l) \<Rightarrow> Some (s\<lparr> m := l, pc := (pc s)(t := W_print) \<rparr>)
        | (Wait_suspends, l) \<Rightarrow> Some (s\<lparr> m := l, pc := (pc s)(t := W_blocked) \<rparr>))
    | W_relock \<Rightarrow> (case cv_wait_reacquire (m s) of
          None \<Rightarrow> None
        | Some l \<Rightarrow> Some (s\<lparr> m := l, pc := (pc s)(t := W_wait_pred) \<rparr>))
    | W_print \<Rightarrow> Some (s\<lparr> out := out s @ [count s], pc := (pc s)(t := W_lk_dtor) \<rparr>)
    | W_lk_dtor \<Rightarrow> Some (s\<lparr> m := unique_lock_dtor (m s), pc := (pc s)(t := C_finished) \<rparr>)
    | _ \<Rightarrow> None)"

text \<open>\<^verbatim>\<open>main\<close>: three threads are started, then joined in the same order.\<close>

definition cv_main :: "cv_state \<Rightarrow> cv_state option" where
  "cv_main s = (case pc s Main of
      C_spawn_t1 \<Rightarrow> Some (s\<lparr> pc := (pc s)(T1 := A_slk_ctor, Main := C_spawn_t2) \<rparr>)
    | C_spawn_t2 \<Rightarrow> Some (s\<lparr> pc := (pc s)(T2 := A_slk_ctor, Main := C_spawn_t3) \<rparr>)
    | C_spawn_t3 \<Rightarrow> Some (s\<lparr> pc := (pc s)(T3 := W_lk_ctor, Main := C_join_t1) \<rparr>)
    | C_join_t1 \<Rightarrow> (if pc s T1 = C_finished
        then Some (s\<lparr> pc := (pc s)(Main := C_join_t2) \<rparr>) else None)
    | C_join_t2 \<Rightarrow> (if pc s T2 = C_finished
        then Some (s\<lparr> pc := (pc s)(Main := C_join_t3) \<rparr>) else None)
    | C_join_t3 \<Rightarrow> (if pc s T3 = C_finished
        then Some (s\<lparr> pc := (pc s)(Main := C_returned) \<rparr>) else None)
    | _ \<Rightarrow> None)"

text \<open>One step of a thread.\<close>

definition cv_step :: "thread \<Rightarrow> cv_state \<Rightarrow> cv_state option" where
  "cv_step t s = (if t = Main then cv_main s
     else if t = T1 \<or> t = T2 then add_count_and_notify t s
     else if t = T3 then waiter_thread t s else None)"

text \<open>
  A thread may also be woken without a notification (a spurious wake-up), so the
  scheduler has a second kind of event.
\<close>

datatype cv_event = Step thread | Spurious_wakeup thread

fun cv_sched :: "cv_event \<Rightarrow> cv_state \<Rightarrow> cv_state" where
  "cv_sched (Step t) s = (case cv_step t s of None \<Rightarrow> s | Some s' \<Rightarrow> s')"
| "cv_sched (Spurious_wakeup t) s =
     (if pc s t = W_blocked then s\<lparr> pc := (pc s)(t := W_relock) \<rparr> else s)"

fun cv_run :: "cv_event list \<Rightarrow> cv_state \<Rightarrow> cv_state" where
  "cv_run [] s = s"
| "cv_run (e # es) s = cv_run es (cv_sched e s)"

text \<open>The locations at which a thread holds \<^verbatim>\<open>m\<close>, and those after its increment.\<close>

definition cv_holds :: "cv_pc \<Rightarrow> bool" where
  "cv_holds p = (p = A_load \<or> p = A_store \<or> p = A_test \<or> p = A_notify \<or> p = A_slk_dtor
     \<or> p = W_wait_pred \<or> p = W_print \<or> p = W_lk_dtor)"

definition cv_incremented :: "cv_pc \<Rightarrow> int" where
  "cv_incremented p =
     (if p = A_test \<or> p = A_notify \<or> p = A_slk_dtor \<or> p = C_finished then 1 else 0)"

text \<open>
  A measure of the work that is left: every step of a thread lowers it, a wake-up raises
  the rank of the waiter by 2, which the notifying thread pays with 3.
\<close>

fun cv_rank :: "cv_pc \<Rightarrow> nat" where
  "cv_rank C_not_started = 18"
| "cv_rank A_slk_ctor = 18"
| "cv_rank A_load = 15"
| "cv_rank A_store = 12"
| "cv_rank A_test = 9"
| "cv_rank A_notify = 6"
| "cv_rank A_slk_dtor = 3"
| "cv_rank W_lk_ctor = 4"
| "cv_rank W_relock = 4"
| "cv_rank W_wait_pred = 3"
| "cv_rank W_blocked = 2"
| "cv_rank W_print = 2"
| "cv_rank W_lk_dtor = 1"
| "cv_rank C_finished = 0"
| "cv_rank C_spawn_t1 = 6"
| "cv_rank C_spawn_t2 = 5"
| "cv_rank C_spawn_t3 = 4"
| "cv_rank C_join_t1 = 3"
| "cv_rank C_join_t2 = 2"
| "cv_rank C_join_t3 = 1"
| "cv_rank C_returned = 0"

definition cv_measure :: "cv_state \<Rightarrow> nat" where
  "cv_measure s = cv_rank (pc s Main) + cv_rank (pc s T1) + cv_rank (pc s T2) + cv_rank (pc s T3)"

definition cv_round :: "cv_event list" where
  "cv_round = [Step Main, Step T1, Step T2, Step T3]"

text \<open>A fair schedule: rounds in which every thread is scheduled once.\<close>

fun cv_rounds :: "nat \<Rightarrow> cv_event list" where
  "cv_rounds 0 = []"
| "cv_rounds (Suc n) = cv_round @ cv_rounds n"

section \<open>Invariants of condition\_variable.cpp\<close>

text \<open>
  Which locations belong to which function; who holds \<^verbatim>\<open>m\<close>; what the counter is; what
  the waiter may rely on (in particular: while it is suspended, either the counter is below
  2 or the thread that made it 2 has not yet notified); how far \<^verbatim>\<open>main\<close> is.
\<close>

definition adder_pc :: "cv_pc \<Rightarrow> bool" where
  "adder_pc p = (p = C_not_started \<or> p = A_slk_ctor \<or> p = A_load \<or> p = A_store \<or> p = A_test
     \<or> p = A_notify \<or> p = A_slk_dtor \<or> p = C_finished)"

definition waiter_pc :: "cv_pc \<Rightarrow> bool" where
  "waiter_pc p = (p = C_not_started \<or> p = W_lk_ctor \<or> p = W_wait_pred \<or> p = W_blocked
     \<or> p = W_relock \<or> p = W_print \<or> p = W_lk_dtor \<or> p = C_finished)"

definition cv_main_pc :: "cv_pc \<Rightarrow> bool" where
  "cv_main_pc p = (p = C_spawn_t1 \<or> p = C_spawn_t2 \<or> p = C_spawn_t3 \<or> p = C_join_t1
     \<or> p = C_join_t2 \<or> p = C_join_t3 \<or> p = C_returned)"


definition cv_typed :: "cv_state \<Rightarrow> bool" where
  "cv_typed s = (adder_pc (pc s T1) \<and> adder_pc (pc s T2) \<and> waiter_pc (pc s T3) \<and>
     cv_main_pc (pc s Main) \<and>
     pc s T4 = C_not_started \<and> pc s T5 = C_not_started \<and> pc s T6 = C_not_started)"

definition cv_lock_inv :: "cv_state \<Rightarrow> bool" where
  "cv_lock_inv s = (
     (m s = (cv_holds (pc s T1) \<or> cv_holds (pc s T2) \<or> cv_holds (pc s T3))) \<and>
     \<not> (cv_holds (pc s T1) \<and> cv_holds (pc s T2)) \<and>
     \<not> (cv_holds (pc s T1) \<and> cv_holds (pc s T3)) \<and>
     \<not> (cv_holds (pc s T2) \<and> cv_holds (pc s T3)))"

definition cv_count_inv :: "cv_state \<Rightarrow> bool" where
  "cv_count_inv s = (
     count s = cv_incremented (pc s T1) + cv_incremented (pc s T2) \<and>
     (pc s T1 = A_store \<longrightarrow> reg s T1 = count s) \<and>
     (pc s T2 = A_store \<longrightarrow> reg s T2 = count s))"

definition cv_wait_inv :: "cv_state \<Rightarrow> bool" where
  "cv_wait_inv s = (
     (pc s T1 = A_notify \<longrightarrow> count s = 2) \<and>
     (pc s T2 = A_notify \<longrightarrow> count s = 2) \<and>
     (pc s T3 = W_print \<or> pc s T3 = W_lk_dtor \<or> pc s T3 = C_finished \<longrightarrow> count s = 2) \<and>
     (pc s T3 = W_blocked \<longrightarrow> count s < 2 \<or> pc s T1 = A_test \<or> pc s T1 = A_notify
         \<or> pc s T2 = A_test \<or> pc s T2 = A_notify) \<and>
     out s = (if pc s T3 = W_lk_dtor \<or> pc s T3 = C_finished then [2] else []))"

definition cv_main_inv :: "cv_state \<Rightarrow> bool" where
  "cv_main_inv s = (
     (pc s T1 = C_not_started) = (pc s Main = C_spawn_t1) \<and>
     (pc s T2 = C_not_started) = (pc s Main = C_spawn_t1 \<or> pc s Main = C_spawn_t2) \<and>
     (pc s T3 = C_not_started) =
        (pc s Main = C_spawn_t1 \<or> pc s Main = C_spawn_t2 \<or> pc s Main = C_spawn_t3) \<and>
     (pc s Main = C_join_t2 \<or> pc s Main = C_join_t3 \<or> pc s Main = C_returned
        \<longrightarrow> pc s T1 = C_finished) \<and>
     (pc s Main = C_join_t3 \<or> pc s Main = C_returned \<longrightarrow> pc s T2 = C_finished) \<and>
     (pc s Main = C_returned \<longrightarrow> pc s T3 = C_finished))"

definition cv_inv :: "cv_state \<Rightarrow> bool" where
  "cv_inv s = (cv_typed s \<and> cv_lock_inv s \<and> cv_count_inv s \<and> cv_wait_inv s \<and> cv_main_inv s)"

section \<open>rwlock.cpp\<close>

text \<open>
  Modelled from the spec: \<^verbatim>\<open>std::shared_mutex\<close> is a class of the C++ standard library,
  its body is not among the sources. Following section 3 (\<open>SharedExclusiveLock\<close>) its
  state is the number of readers that hold it and whether a writer holds it.
\<close>

record shared_mutex =
  reader_count :: nat
  writer_active :: bool

text \<open>
  Modelled from the spec: \<open>AcquireShared()\<close> of section 4.3 blocks while a writer holds
  the lock and then adds a reader. Section 4.3 further lets a reader wait while a writer
  is queued; the standard library does not promise that order, and leaving it out only
  adds executions, so what holds for every execution here also holds under that policy.
\<close>

definition lock_shared :: "shared_mutex \<Rightarrow> shared_mutex option" where
  "lock_shared l = (if writer_active l then None
     else Some (l\<lparr> reader_count := reader_count l + 1 \<rparr>))"

text \<open>
  Modelled from the spec: \<open>ReleaseShared()\<close> of section 4.3 removes a reader. Called by a
  thread that holds no shared lock it is a contract violation; no thread of the program
  does that (the subtraction on \<open>nat\<close> would stop at 0).
\<close>

definition unlock_shared :: "shared_mutex \<Rightarrow> shared_mutex" where
  "unlock_shared l = l\<lparr> reader_count := reader_count l - 1 \<rparr>"

text \<open>
  Modelled from the spec: \<open>AcquireExclusive()\<close> of section 4.3 blocks until no reader and
  no writer holds the lock, then marks the writer active.
\<close>

definition lock_exclusive :: "shared_mutex \<Rightarrow> shared_mutex option" where
  "lock_exclusive l = (if reader_count l = 0 \<and> \<not> writer_active l
     then Some (l\<lparr> writer_active := True \<rparr>) else None)"

text \<open>Modelled from the spec: \<open>ReleaseExclusive()\<close> of section 4.3 clears the writer.\<close>

definition unlock_exclusive :: "shared_mutex \<Rightarrow> shared_mutex" where
  "unlock_exclusive l = l\<lparr> writer_active := False \<rparr>"

text \<open>
  The program counters of \<^verbatim>\<open>read_value\<close> (prefix \<open>RV\<close>), of \<^verbatim>\<open>write_value\<close> (prefix
  \<open>WV\<close>) and of \<^verbatim>\<open>main\<close>. \<^verbatim>\<open>std::shared_lock lk(m)\<close> acquires \<^verbatim>\<open>m\<close> shared in its
  constructor and releases it in its destructor; \<^verbatim>\<open>std::unique_lock lk(m)\<close> does the same
  with the exclusive lock. \<^verbatim>\<open>read_value\<close> reads \<^verbatim>\<open>count\<close> once, to print it; the
  model records the number it prints. \<^verbatim>\<open>count += 3\<close> is a load and a store.
\<close>

datatype rwlock_pc =
    R_not_started
  | RV_lk_ctor | RV_print | RV_lk_dtor
  | WV_lk_ctor | WV_load | WV_store | WV_lk_dtor
  | R_finished
  | R_spawn_t1 | R_spawn_t2 | R_spawn_t3 | R_spawn_t4 | R_spawn_t5 | R_spawn_t6
  | R_join_t1 | R_join_t2 | R_join_t3 | R_join_t4 | R_join_t5 | R_join_t6
  | R_returned

type_synonym rwlock_state = "(shared_mutex, rwlock_pc) globals"

text \<open>The initial state: the globals as they are defined, \<^verbatim>\<open>main\<close> about to start.\<close>

definition rwlock_init :: rwlock_state where
  "rwlock_init = \<lparr> count = 0, m = \<lparr> reader_count = 0, writer_active = False \<rparr>,
     reg = (\<lambda>t. 0), pc = (\<lambda>t. R_not_started)(Main := R_spawn_t1), out = [] \<rparr>"

text \<open>\<^verbatim>\<open>read_value\<close>: under a shared lock, \<^verbatim>\<open>count\<close> is read and printed.\<close>

definition read_value :: "thread \<Rightarrow> rwlock_state \<Rightarrow> rwlock_state option" where
  "read_value t s = (case pc s t of
      RV_lk_ctor \<Rightarrow> (case lock_shared (m s) of
          None \<Rightarrow> None
        | Some l \<Rightarrow> Some (s\<lparr> m := l, pc := (pc s)(t := RV_print) \<rparr>))
    | RV_print \<Rightarrow> Some (s\<lparr> out := out s @ [count s], pc := (pc s)(t := RV_lk_dtor) \<rparr>)
    | RV_lk_dtor \<Rightarrow> Some (s\<lparr> m := unlock_shared (m s), pc := (pc s)(t := R_finished) \<rparr>)
    | _ \<Rightarrow> None)"

text \<open>\<^verbatim>\<open>write_value\<close>: under the exclusive lock, \<^verbatim>\<open>count += 3\<close>.\<close>

definition write_value :: "thread \<Rightarrow> rwlock_state \<Rightarrow> rwlock_state option" where
  "write_value t s = (case pc s t of
      WV_lk_ctor \<Rightarrow> (case lock_exclusive (m s) of
          None \<Rightarrow> None
        | Some l \<Rightarrow> Some (s\<lparr> m := l, pc := (pc s)(t := WV_load) \<rparr>))
    | WV_load \<Rightarrow> Some (s\<lparr> reg := (reg s)(t := count s), pc := (pc s)(t := WV_store) \<rparr>)
    | WV_store \<Rightarrow> Some (s\<lparr> count := reg s t + 3, pc := (pc s)(t := WV_lk_dtor) \<rparr>)
    | WV_lk_dtor \<Rightarrow> Some (s\<lparr> m := unlock_exclusive (m s), pc := (pc s)(t := R_finished) \<rparr>)
    | _ \<Rightarrow> None)"

text \<open>
  \<^verbatim>\<open>main\<close>: six threads are started (\<open>T1\<close>, \<open>T3\<close>, \<open>T4\<close>, \<open>T6\<close> read, \<open>T2\<close>, \<open>T5\<close>
  write), then joined in the same order. A join waits until the thread has finished.
\<close>

definition rwlock_join ::
  "thread \<Rightarrow> rwlock_pc \<Rightarrow> rwlock_state \<Rightarrow> rwlock_state option" where
  "rwlock_join t next s = (if pc s t = R_finished
     then Some (s\<lparr> pc := (pc s)(Main := next) \<rparr>) else None)"

definition rwlock_main :: "rwlock_state \<Rightarrow> rwlock_state option" where
  "rwlock_main s = (case pc s Main of
      R_spawn_t1 \<Rightarrow> Some (s\<lparr> pc := (pc s)(T1 := RV_lk_ctor, Main := R_spawn_t2) \<rparr>)
    | R_spawn_t2 \<Rightarrow> Some (s\<lparr> pc := (pc s)(T2 := WV_lk_ctor, Main := R_spawn_t3) \<rparr>)
    | R_spawn_t3 \<Rightarrow> Some (s\<lparr> pc := (pc s)(T3 := RV_lk_ctor, Main := R_spawn_t4) \<rparr>)
    | R_spawn_t4 \<Rightarrow> Some (s\<lparr> pc := (pc s)(T4 := RV_lk_ctor, Main := R_spawn_t5) \<rparr>)
    | R_spawn_t5 \<Rightarrow> Some (s\<lparr> pc := (pc s)(T5 := WV_lk_ctor, Main := R_spawn_t6) \<rparr>)
    | R_spawn_t6 \<Rightarrow> Some (s\<lparr> pc := (pc s)(T6 := RV_lk_ctor, Main := R_join_t1) \<rparr>)
    | R_join_t1 \<Rightarrow> rwlock_join T1 R_join_t2 s
    | R_join_t2 \<Rightarrow> rwlock_join T2 R_join_t3 s
    | R_join_t3 \<Rightarrow> rwlock_join T3 R_join_t4 s
    | R_join_t4 \<Rightarrow> rwlock_join T4 R_join_t5 s
    | R_join_t5 \<Rightarrow> rwlock_join T5 R_join_t6 s
    | R_join_t6 \<Rightarrow> rwlock_join T6 R_returned s
    | _ \<Rightarrow> None)"

text \<open>One step of a thread, the scheduler, and a run under a schedule.\<close>

definition rwlock_step :: "thread \<Rightarrow> rwlock_state \<Rightarrow> rwlock_state option" where
  "rwlock_step t s = (if t = Main then rwlock_main s
     else if t = T2 \<or> t = T5 then write_value t s
     else read_value t s)"

definition rwlock_sched :: "thread \<Rightarrow> rwlock_state \<Rightarrow> rwlock_state" where
  "rwlock_sched t s = (case rwlock_step t s of None \<Rightarrow> s | Some s' \<Rightarrow> s')"

fun rwlock_run :: "thread list \<Rightarrow> rwlock_state \<Rightarrow> rwlock_state" where
  "rwlock_run [] s = s"
| "rwlock_run (t # ts) s = rwlock_run ts (rwlock_sched t s)"

text \<open>
  The locations at which a thread holds the shared lock, those at which it holds the
  exclusive lock, and those after its write.
\<close>

definition reading :: "rwlock_pc \<Rightarrow> bool" where
  "reading p = (p = RV_print \<or> p = RV_lk_dtor)"

definition writing :: "rwlock_pc \<Rightarrow> bool" where
  "writing p = (p = WV_load \<or> p = WV_store \<or> p = WV_lk_dtor)"

definition written :: "rwlock_pc \<Rightarrow> bool" where
  "written p = (p = WV_lk_dtor \<or> p = R_finished)"

section \<open>Invariants of rwlock.cpp\<close>

text \<open>
  Which locations belong to which function and how far \<^verbatim>\<open>main\<close> is (the index counts
  the statements of \<^verbatim>\<open>main\<close> that are done); the reader count of the lock is the number
  of threads inside \<^verbatim>\<open>read_value\<close>'s scope, a writer is active exactly while one of the
  two writing threads is inside \<^verbatim>\<open>write_value\<close>'s scope; the counter is three times the
  number of completed writes.
\<close>

definition reader_pc :: "rwlock_pc \<Rightarrow> bool" where
  "reader_pc p = (p = R_not_started \<or> p = RV_lk_ctor \<or> p = RV_print \<or> p = RV_lk_dtor
     \<or> p = R_finished)"

definition writer_pc :: "rwlock_pc \<Rightarrow> bool" where
  "writer_pc p = (p = R_not_started \<or> p = WV_lk_ctor \<or> p = WV_load \<or> p = WV_store
     \<or> p = WV_lk_dtor \<or> p = R_finished)"

fun rwlock_main_index :: "rwlock_pc \<Rightarrow> nat" where
  "rwlock_main_index R_spawn_t1 = 0"
| "rwlock_main_index R_spawn_t2 = 1"
| "rwlock_main_index R_spawn_t3 = 2"
| "rwlock_main_index R_spawn_t4 = 3"
| "rwlock_main_index R_spawn_t5 = 4"
| "rwlock_main_index R_spawn_t6 = 5"
| "rwlock_main_index R_join_t1 = 6"
| "rwlock_main_index R_join_t2 = 7"
| "rwlock_main_index R_join_t3 = 8"
| "rwlock_main_index R_join_t4 = 9"
| "rwlock_main_index R_join_t5 = 10"
| "rwlock_main_index R_join_t6 = 11"
| "rwlock_main_index R_returned = 12"
| "rwlock_main_index _ = 0"

definition rwlock_main_pc :: "rwlock_pc \<Rightarrow> bool" where
  "rwlock_main_pc p = (p = R_spawn_t1 \<or> 0 < rwlock_main_index p)"

definition rwlock_typed :: "rwlock_state \<Rightarrow> bool" where
  "rwlock_typed s = (reader_pc (pc s T1) \<and> writer_pc (pc s T2) \<and> reader_pc (pc s T3) \<and>
     reader_pc (pc s T4) \<and> writer_pc (pc s T5) \<and> reader_pc (pc s T6) \<and>
     rwlock_main_pc (pc s Main))"

definition rwlock_lock_inv :: "rwlock_state \<Rightarrow> bool" where
  "rwlock_lock_inv s = (
     reader_count (m s) = of_bool (reading (pc s T1)) + of_bool (reading (pc s T3)) +
       of_bool (reading (pc s T4)) + of_bool (reading (pc s T6)) \<and>
     writer_active (m s) = (writing (pc s T2) \<or> writing (pc s T5)) \<and>
     \<not> (writing (pc s T2) \<and> writing (pc s T5)) \<and>
     (writer_active (m s) \<longrightarrow> reader_count (m s) = 0))"

definition rwlock_count_inv :: "rwlock_state \<Rightarrow> bool" where
  "rwlock_count_inv s = (
     count s = 3 * of_bool (written (pc s T2)) + 3 * of_bool (written (pc s T5)) \<and>
     (pc s T2 = WV_store \<longrightarrow> reg s T2 = count s) \<and>
     (pc s T5 = WV_store \<longrightarrow> reg s T5 = count s) \<and>
     set (out s) \<subseteq> {0, 3, 6})"

definition rwlock_main_inv :: "rwlock_state \<Rightarrow> bool" where
  "rwlock_main_inv s = (
     (pc s T1 = R_not_started) = (rwlock_main_index (pc s Main) < 1) \<and>
     (pc s T2 = R_not_started) = (rwlock_main_index (pc s Main) < 2) \<and>
     (pc s T3 = R_not_started) = (rwlock_main_index (pc s Main) < 3) \<and>
     (pc s T4 = R_not_started) = (rwlock_main_index (pc s Main) < 4) \<and>
     (pc s T5 = R_not_started) = (rwlock_main_index (pc s Main) < 5) \<and>
     (pc s T6 = R_not_started) = (rwlock_main_index (pc s Main) < 6) \<and>
     (6 < rwlock_main_index (pc s Main) \<longrightarrow> pc s T1 = R_finished) \<and>
     (7 < rwlock_main_index (pc s Main) \<longrightarrow> pc s T2 = R_finished) \<and>
     (8 < rwlock_main_index (pc s Main) \<longrightarrow> pc s T3 = R_finished) \<and>
     (9 < rwlock_main_index (pc s Main) \<longrightarrow> pc s T4 = R_finished) \<and>
     (10 < rwlock_main_index (pc s Main) \<longrightarrow> pc s T5 = R_finished) \<and>
     (11 < rwlock_main_index (pc s Main) \<longrightarrow> pc s T6 = R_finished))"

definition rwlock_inv :: "rwlock_state \<Rightarrow> bool" where
  "rwlock_inv s = (rwlock_typed s \<and> rwlock_lock_inv s \<and> rwlock_count_inv s \<and> rwlock_main_inv s)"

text \<open>The measure of the work that is left, and the fair schedule.\<close>

fun rwlock_rank :: "rwlock_pc \<Rightarrow> nat" where
  "rwlock_rank R_not_started = 4"
| "rwlock_rank RV_lk_ctor = 3"
| "rwlock_rank RV_print = 2"
| "rwlock_rank RV_lk_dtor = 1"
| "rwlock_rank WV_lk_ctor = 4"
| "rwlock_rank WV_load = 3"
| "rwlock_rank WV_store = 2"
| "rwlock_rank WV_lk_dtor = 1"
| "rwlock_rank R_finished = 0"
| "rwlock_rank p = 12 - rwlock_main_index p"

definition rwlock_measure :: "rwlock_state \<Rightarrow> nat" where
  "rwlock_measure s = rwlock_rank (pc s Main) + rwlock_rank (pc s T1) + rwlock_rank (pc s T2) +
     rwlock_rank (pc s T3) + rwlock_rank (pc s T4) + rwlock_rank (pc s T5) + rwlock_rank (pc s T6)"

definition rwlock_round :: "thread list" where
  "rwlock_round = [Main, T1, T2, T3, T4, T5, T6]"

fun rwlock_rounds :: "nat \<Rightarrow> thread list" where
  "rwlock_rounds 0 = []"
| "rwlock_rounds (Suc n) = rwlock_round @ rwlock_rounds n"

section \<open>Proofs of the invariants of mutex.cpp and scoped\_lock.cpp\<close>

lemma mutex_inv_init: "mutex_inv mutex_init"
  by (simp add: mutex_inv_def mutex_init_def mutex_in_cs_def)

lemma mutex_inv_add_count_T1:
  "mutex_inv s \<Longrightarrow> mutex_add_count T1 s = Some s' \<Longrightarrow> mutex_inv s'"
  unfolding mutex_add_count_def
  by (cases "pc s T1"; cases "m s";
      clarsimp simp: mutex_inv_def mutex_in_cs_def lock_def unlock_def)

lemma mutex_inv_add_count_T2:
  "mutex_inv s \<Longrightarrow> mutex_add_count T2 s = Some s' \<Longrightarrow> mutex_inv s'"
  unfolding mutex_add_count_def
  by (cases "pc s T2"; cases "m s";
      clarsimp simp: mutex_inv_def mutex_in_cs_def lock_def unlock_def)

lemma mutex_inv_main: "mutex_inv s \<Longrightarrow> mutex_main s = Some s' \<Longrightarrow> mutex_inv s'"
  unfolding mutex_main_def
  by (cases "pc s Main"; clarsimp simp: mutex_inv_def mutex_in_cs_def split: if_splits)

lemma mutex_inv_sched: "mutex_inv s \<Longrightarrow> mutex_inv (mutex_sched t s)"
  unfolding mutex_sched_def mutex_step_def
  by (auto split: option.splits
      intro: mutex_inv_main mutex_inv_add_count_T1 mutex_inv_add_count_T2)

lemma mutex_inv_run: "mutex_inv s \<Longrightarrow> mutex_inv (mutex_run sch s)"
  by (induction sch arbitrary: s) (simp_all add: mutex_inv_sched)

lemma mutex_inv_reachable: "mutex_inv (mutex_run sch mutex_init)"
  by (rule mutex_inv_run [OF mutex_inv_init])

lemma scoped_inv_init: "scoped_inv scoped_init"
  by (simp add: scoped_inv_def scoped_init_def scoped_in_cs_def)

lemma scoped_inv_add_count_T1:
  "scoped_inv s \<Longrightarrow> scoped_add_count T1 s = Some s' \<Longrightarrow> scoped_inv s'"
  unfolding scoped_add_count_def
  by (cases "pc s T1"; cases "m s";
      clarsimp simp: scoped_inv_def scoped_in_cs_def scoped_lock_ctor_def
        scoped_lock_dtor_def lock_def unlock_def)

lemma scoped_inv_add_count_T2:
  "scoped_inv s \<Longrightarrow> scoped_add_count T2 s = Some s' \<Longrightarrow> scoped_inv s'"
  unfolding scoped_add_count_def
  by (cases "pc s T2"; cases "m s";
      clarsimp simp: scoped_inv_def scoped_in_cs_def scoped_lock_ctor_def
        scoped_lock_dtor_def lock_def unlock_def)

lemma scoped_inv_main: "scoped_inv s \<Longrightarrow> scoped_main s = Some s' \<Longrightarrow> scoped_inv s'"
  unfolding scoped_main_def
  by (cases "pc s Main"; clarsimp simp: scoped_inv_def scoped_in_cs_def split: if_splits)

lemma scoped_inv_sched: "scoped_inv s \<Longrightarrow> scoped_inv (scoped_sched t s)"
  unfolding scoped_sched_def scoped_step_def
  by (auto split: option.splits
      intro: scoped_inv_main scoped_inv_add_count_T1 scoped_inv_add_count_T2)

lemma scoped_inv_run: "scoped_inv s \<Longrightarrow> scoped_inv (scoped_run sch s)"
  by (induction sch arbitrary: s) (simp_all add: scoped_inv_sched)

lemma scoped_inv_reachable: "scoped_inv (scoped_run sch scoped_init)"
  by (rule scoped_inv_run [OF scoped_inv_init])

lemma mutex_inv_excl:
  "mutex_inv s \<Longrightarrow> t1 \<noteq> t2 \<Longrightarrow> \<not> (mutex_in_cs (pc s t1) \<and> mutex_in_cs (pc s t2))"
  by (cases t1; cases t2; simp add: mutex_inv_def mutex_in_cs_def; blast)

lemma scoped_inv_excl:
  "scoped_inv s \<Longrightarrow> t1 \<noteq> t2 \<Longrightarrow> \<not> (scoped_in_cs (pc s t1) \<and> scoped_in_cs (pc s t2))"
  by (cases t1; cases t2; simp add: scoped_inv_def scoped_in_cs_def; blast)

section \<open>Proofs of progress for mutex.cpp and scoped\_lock.cpp\<close>

lemma mutex_typed_init: "mutex_typed mutex_init"
  by (simp add: mutex_typed_def mutex_init_def mutex_worker_pc_def)

lemma mutex_typed_add_count:
  "mutex_typed s \<Longrightarrow> t = T1 \<or> t = T2 \<Longrightarrow> mutex_add_count t s = Some s' \<Longrightarrow> mutex_typed s'"
  unfolding mutex_add_count_def
  by (cases "pc s t"; cases "m s"; elim disjE;
      clarsimp simp: mutex_typed_def mutex_worker_pc_def lock_def)

lemma mutex_typed_main: "mutex_typed s \<Longrightarrow> mutex_main s = Some s' \<Longrightarrow> mutex_typed s'"
  unfolding mutex_main_def
  by (cases "pc s Main"; clarsimp simp: mutex_typed_def mutex_worker_pc_def split: if_splits)

lemma mutex_typed_step: "mutex_typed s \<Longrightarrow> mutex_step t s = Some s' \<Longrightarrow> mutex_typed s'"
  unfolding mutex_step_def
  by (auto split: if_splits intro: mutex_typed_main mutex_typed_add_count)

lemma mutex_inv_step: "mutex_inv s \<Longrightarrow> mutex_step t s = Some s' \<Longrightarrow> mutex_inv s'"
  using mutex_inv_sched [of s t] by (simp add: mutex_sched_def)

lemma mutex_typed_sched: "mutex_typed s \<Longrightarrow> mutex_typed (mutex_sched t s)"
  unfolding mutex_sched_def by (auto split: option.splits intro: mutex_typed_step)

lemma mutex_typed_run: "mutex_typed s \<Longrightarrow> mutex_typed (mutex_run sch s)"
  by (induction sch arbitrary: s) (simp_all add: mutex_typed_sched)

lemma mutex_add_count_decreases:
  "t = T1 \<or> t = T2 \<Longrightarrow> mutex_add_count t s = Some s' \<Longrightarrow> mutex_measure s' < mutex_measure s"
  unfolding mutex_add_count_def
  by (cases "pc s t"; cases "m s"; elim disjE; clarsimp simp: mutex_measure_def lock_def)

lemma mutex_main_decreases:
  "mutex_typed s \<Longrightarrow> mutex_main s = Some s' \<Longrightarrow> mutex_measure s' < mutex_measure s"
  unfolding mutex_main_def
  by (cases "pc s Main"; clarsimp simp: mutex_measure_def mutex_typed_def split: if_splits)

lemma mutex_step_decreases:
  "mutex_typed s \<Longrightarrow> mutex_step t s = Some s' \<Longrightarrow> mutex_measure s' < mutex_measure s"
  unfolding mutex_step_def
  by (auto split: if_splits intro: mutex_main_decreases mutex_add_count_decreases)

lemma mutex_add_count_blocked:
  "mutex_worker_pc (pc s t) \<Longrightarrow> mutex_add_count t s = None \<Longrightarrow>
   pc s t = M_not_started \<or> pc s t = M_finished \<or> (pc s t = M_lock \<and> m s)"
  unfolding mutex_add_count_def
  by (cases "pc s t"; cases "m s"; simp add: lock_def mutex_worker_pc_def)

lemma mutex_main_blocked:
  "\<not> mutex_worker_pc (pc s Main) \<Longrightarrow> mutex_main s = None \<Longrightarrow> pc s Main \<noteq> M_returned \<Longrightarrow>
   (pc s Main = M_join_t1 \<and> pc s T1 \<noteq> M_finished) \<or>
   (pc s Main = M_join_t2 \<and> pc s T2 \<noteq> M_finished)"
  unfolding mutex_main_def
  by (cases "pc s Main"; simp add: mutex_worker_pc_def split: if_splits)

lemma mutex_deadlock_free:
  assumes "mutex_inv s" and "mutex_typed s" and "pc s Main \<noteq> M_returned"
  shows "\<exists>t \<in> set mutex_round. mutex_step t s \<noteq> None"
proof (rule ccontr)
  assume "\<not> ?thesis"
  then have n: "mutex_main s = None" "mutex_add_count T1 s = None" "mutex_add_count T2 s = None"
    by (simp_all add: mutex_step_def mutex_round_def)
  from assms(2) have t: "\<not> mutex_worker_pc (pc s Main)" "mutex_worker_pc (pc s T1)"
    "mutex_worker_pc (pc s T2)"
    and st1: "(pc s T1 = M_not_started) = (pc s Main = M_spawn_t1)"
    and st2: "(pc s T2 = M_not_started) = (pc s Main = M_spawn_t1 \<or> pc s Main = M_spawn_t2)"
    by (simp_all add: mutex_typed_def)
  note bm = mutex_main_blocked [OF t(1) n(1) assms(3)]
  note b1 = mutex_add_count_blocked [OF t(2) n(2)]
  note b2 = mutex_add_count_blocked [OF t(3) n(3)]
  from bm have "pc s Main = M_join_t1 \<or> pc s Main = M_join_t2" by blast
  with st1 st2 have started: "pc s T1 \<noteq> M_not_started" "pc s T2 \<noteq> M_not_started"
    by auto
  from assms(1) have held: "m s = (mutex_in_cs (pc s T1) \<or> mutex_in_cs (pc s T2))"
    by (simp add: mutex_inv_def)
  from b1 started(1) have c1: "\<not> mutex_in_cs (pc s T1)" by (auto simp: mutex_in_cs_def)
  from b2 started(2) have c2: "\<not> mutex_in_cs (pc s T2)" by (auto simp: mutex_in_cs_def)
  from held c1 c2 have free: "\<not> m s" by simp
  with b1 started(1) have f1: "pc s T1 = M_finished" by blast
  from free b2 started(2) have f2: "pc s T2 = M_finished" by blast
  from bm f1 f2 show False by blast
qed

lemma mutex_run_append: "mutex_run (ts @ us) s = mutex_run us (mutex_run ts s)"
  by (induction ts arbitrary: s) simp_all

lemma mutex_sched_le: "mutex_typed s \<Longrightarrow> mutex_measure (mutex_sched t s) \<le> mutex_measure s"
  unfolding mutex_sched_def by (auto split: option.splits dest: mutex_step_decreases)

lemma mutex_run_le: "mutex_typed s \<Longrightarrow> mutex_measure (mutex_run ts s) \<le> mutex_measure s"
proof (induction ts arbitrary: s)
  case Nil
  then show ?case by simp
next
  case (Cons t ts)
  have "mutex_measure (mutex_run ts (mutex_sched t s)) \<le> mutex_measure (mutex_sched t s)"
    using Cons.prems by (intro Cons.IH mutex_typed_sched)
  also have "\<dots> \<le> mutex_measure s" using Cons.prems by (rule mutex_sched_le)
  finally show ?case by simp
qed

lemma mutex_some_step_decreases:
  "mutex_typed s \<Longrightarrow> \<exists>t \<in> set ts. mutex_step t s \<noteq> None \<Longrightarrow>
   mutex_measure (mutex_run ts s) < mutex_measure s"
proof (induction ts arbitrary: s)
  case Nil
  then show ?case by simp
next
  case (Cons t ts)
  show ?case
  proof (cases "mutex_step t s")
    case None
    then have same: "mutex_sched t s = s" by (simp add: mutex_sched_def)
    from None Cons.prems(2) have "\<exists>u \<in> set ts. mutex_step u s \<noteq> None" by auto
    with Cons.prems(1) have "mutex_measure (mutex_run ts s) < mutex_measure s"
      by (rule Cons.IH)
    with same show ?thesis by simp
  next
    case (Some s')
    then have next_state: "mutex_sched t s = s'" by (simp add: mutex_sched_def)
    from Cons.prems(1) Some have lt: "mutex_measure s' < mutex_measure s"
      by (rule mutex_step_decreases)
    from Cons.prems(1) Some have "mutex_typed s'" by (rule mutex_typed_step)
    then have "mutex_measure (mutex_run ts s') \<le> mutex_measure s'" by (rule mutex_run_le)
    with lt next_state show ?thesis by simp
  qed
qed

lemma mutex_measure_zero: "mutex_typed s \<Longrightarrow> mutex_measure s = 0 \<Longrightarrow> pc s Main = M_returned"
  by (cases "pc s Main") (simp_all add: mutex_measure_def mutex_typed_def mutex_worker_pc_def)

lemma mutex_returned_step:
  "mutex_inv s \<Longrightarrow> pc s Main = M_returned \<Longrightarrow> mutex_step t s = None"
proof -
  assume inv: "mutex_inv s" and r: "pc s Main = M_returned"
  then have f: "pc s T1 = M_finished" "pc s T2 = M_finished"
    by (simp_all add: mutex_inv_def)
  from r f show ?thesis
    by (cases t) (simp_all add: mutex_step_def mutex_main_def mutex_add_count_def)
qed

lemma mutex_returned_run:
  "mutex_inv s \<Longrightarrow> pc s Main = M_returned \<Longrightarrow> mutex_run ts s = s"
  by (induction ts) (simp_all add: mutex_sched_def mutex_returned_step)

lemma mutex_rounds_complete:
  "mutex_inv s \<Longrightarrow> mutex_typed s \<Longrightarrow> mutex_measure s \<le> n \<Longrightarrow>
   pc (mutex_run (mutex_rounds n) s) Main = M_returned"
proof (induction n arbitrary: s)
  case 0
  then show ?case by (simp add: mutex_measure_zero)
next
  case (Suc n)
  show ?case
  proof (cases "pc s Main = M_returned")
    case True
    with Suc.prems(1) show ?thesis by (simp add: mutex_returned_run)
  next
    case False
    with Suc.prems(1,2) have "\<exists>t \<in> set mutex_round. mutex_step t s \<noteq> None"
      by (rule mutex_deadlock_free)
    with Suc.prems(2) have "mutex_measure (mutex_run mutex_round s) < mutex_measure s"
      by (rule mutex_some_step_decreases)
    with Suc.prems(3) have le: "mutex_measure (mutex_run mutex_round s) \<le> n" by simp
    have i: "mutex_inv (mutex_run mutex_round s)" using Suc.prems(1) by (rule mutex_inv_run)
    have t: "mutex_typed (mutex_run mutex_round s)" using Suc.prems(2) by (rule mutex_typed_run)
    from i t le have "pc (mutex_run (mutex_rounds n) (mutex_run mutex_round s)) Main
        = M_returned"
      by (rule Suc.IH)
    then show ?thesis by (simp add: mutex_run_append)
  qed
qed

lemma mutex_measure_bound: "mutex_typed s \<Longrightarrow> mutex_measure s \<le> 13"
proof -
  have w: "\<And>p. mutex_worker_pc p \<Longrightarrow> mutex_rank p \<le> 4"
    by (auto simp: mutex_worker_pc_def)
  have a: "mutex_rank p \<le> 5" for p by (cases p) simp_all
  assume "mutex_typed s"
  then have "mutex_rank (pc s T1) \<le> 4" "mutex_rank (pc s T2) \<le> 4"
    by (simp_all add: mutex_typed_def w)
  with a [of "pc s Main"] show ?thesis by (simp add: mutex_measure_def)
qed

lemma mutex_fair_completion:
  "pc (mutex_run (mutex_rounds 13) (mutex_run sch mutex_init)) Main = M_returned"
proof -
  have i: "mutex_inv (mutex_run sch mutex_init)" by (rule mutex_inv_reachable)
  have t: "mutex_typed (mutex_run sch mutex_init)" by (rule mutex_typed_run [OF mutex_typed_init])
  from i t mutex_measure_bound [OF t] show ?thesis by (rule mutex_rounds_complete)
qed

lemma scoped_typed_init: "scoped_typed scoped_init"
  by (simp add: scoped_typed_def scoped_init_def scoped_worker_pc_def)

lemma scoped_typed_add_count:
  "scoped_typed s \<Longrightarrow> t = T1 \<or> t = T2 \<Longrightarrow> scoped_add_count t s = Some s' \<Longrightarrow> scoped_typed s'"
  unfolding scoped_add_count_def
  by (cases "pc s t"; cases "m s"; elim disjE;
      clarsimp simp: scoped_typed_def scoped_worker_pc_def scoped_lock_ctor_def lock_def)

lemma scoped_typed_main: "scoped_typed s \<Longrightarrow> scoped_main s = Some s' \<Longrightarrow> scoped_typed s'"
  unfolding scoped_main_def
  by (cases "pc s Main"; clarsimp simp: scoped_typed_def scoped_worker_pc_def split: if_splits)

lemma scoped_typed_step: "scoped_typed s \<Longrightarrow> scoped_step t s = Some s' \<Longrightarrow> scoped_typed s'"
  unfolding scoped_step_def
  by (auto split: if_splits intro: scoped_typed_main scoped_typed_add_count)

lemma scoped_inv_step: "scoped_inv s \<Longrightarrow> scoped_step t s = Some s' \<Longrightarrow> scoped_inv s'"
  using scoped_inv_sched [of s t] by (simp add: scoped_sched_def)

lemma scoped_typed_sched: "scoped_typed s \<Longrightarrow> scoped_typed (scoped_sched t s)"
  unfolding scoped_sched_def by (auto split: option.splits intro: scoped_typed_step)

lemma scoped_typed_run: "scoped_typed s \<Longrightarrow> scoped_typed (scoped_run sch s)"
  by (induction sch arbitrary: s) (simp_all add: scoped_typed_sched)

lemma scoped_add_count_decreases:
  "t = T1 \<or> t = T2 \<Longrightarrow> scoped_add_count t s = Some s' \<Longrightarrow> scoped_measure s' < scoped_measure s"
  unfolding scoped_add_count_def
  by (cases "pc s t"; cases "m s"; elim disjE; clarsimp simp: scoped_measure_def scoped_lock_ctor_def lock_def)

lemma scoped_main_decreases:
  "scoped_typed s \<Longrightarrow> scoped_main s = Some s' \<Longrightarrow> scoped_measure s' < scoped_measure s"
  unfolding scoped_main_def
  by (cases "pc s Main"; clarsimp simp: scoped_measure_def scoped_typed_def split: if_splits)

lemma scoped_step_decreases:
  "scoped_typed s \<Longrightarrow> scoped_step t s = Some s' \<Longrightarrow> scoped_measure s' < scoped_measure s"
  unfolding scoped_step_def
  by (auto split: if_splits intro: scoped_main_decreases scoped_add_count_decreases)

lemma scoped_add_count_blocked:
  "scoped_worker_pc (pc s t) \<Longrightarrow> scoped_add_count t s = None \<Longrightarrow>
   pc s t = S_not_started \<or> pc s t = S_finished \<or> (pc s t = S_slk_ctor \<and> m s)"
  unfolding scoped_add_count_def
  by (cases "pc s t"; cases "m s"; simp add: scoped_lock_ctor_def lock_def scoped_worker_pc_def)

lemma scoped_main_blocked:
  "\<not> scoped_worker_pc (pc s Main) \<Longrightarrow> scoped_main s = None \<Longrightarrow> pc s Main \<noteq> S_returned \<Longrightarrow>
   (pc s Main = S_join_t1 \<and> pc s T1 \<noteq> S_finished) \<or>
   (pc s Main = S_join_t2 \<and> pc s T2 \<noteq> S_finished)"
  unfolding scoped_main_def
  by (cases "pc s Main"; simp add: scoped_worker_pc_def split: if_splits)

lemma scoped_deadlock_free:
  assumes "scoped_inv s" and "scoped_typed s" and "pc s Main \<noteq> S_returned"
  shows "\<exists>t \<in> set scoped_round. scoped_step t s \<noteq> None"
proof (rule ccontr)
  assume "\<not> ?thesis"
  then have n: "scoped_main s = None" "scoped_add_count T1 s = None" "scoped_add_count T2 s = None"
    by (simp_all add: scoped_step_def scoped_round_def)
  from assms(2) have t: "\<not> scoped_worker_pc (pc s Main)" "scoped_worker_pc (pc s T1)"
    "scoped_worker_pc (pc s T2)"
    and st1: "(pc s T1 = S_not_started) = (pc s Main = S_spawn_t1)"
    and st2: "(pc s T2 = S_not_started) = (pc s Main = S_spawn_t1 \<or> pc s Main = S_spawn_t2)"
    by (simp_all add: scoped_typed_def)
  note bm = scoped_main_blocked [OF t(1) n(1) assms(3)]
  note b1 = scoped_add_count_blocked [OF t(2) n(2)]
  note b2 = scoped_add_count_blocked [OF t(3) n(3)]
  from bm have "pc s Main = S_join_t1 \<or> pc s Main = S_join_t2" by blast
  with st1 st2 have started: "pc s T1 \<noteq> S_not_started" "pc s T2 \<noteq> S_not_started"
    by auto
  from assms(1) have held: "m s = (scoped_in_cs (pc s T1) \<or> scoped_in_cs (pc s T2))"
    by (simp add: scoped_inv_def)
  from b1 started(1) have c1: "\<not> scoped_in_cs (pc s T1)" by (auto simp: scoped_in_cs_def)
  from b2 started(2) have c2: "\<not> scoped_in_cs (pc s T2)" by (auto simp: scoped_in_cs_def)
  from held c1 c2 have free: "\<not> m s" by simp
  with b1 started(1) have f1: "pc s T1 = S_finished" by blast
  from free b2 started(2) have f2: "pc s T2 = S_finished" by blast
  from bm f1 f2 show False by blast
qed

lemma scoped_run_append: "scoped_run (ts @ us) s = scoped_run us (scoped_run ts s)"
  by (induction ts arbitrary: s) simp_all

lemma scoped_sched_le: "scoped_typed s \<Longrightarrow> scoped_measure (scoped_sched t s) \<le> scoped_measure s"
  unfolding scoped_sched_def by (auto split: option.splits dest: scoped_step_decreases)

lemma scoped_run_le: "scoped_typed s \<Longrightarrow> scoped_measure (scoped_run ts s) \<le> scoped_measure s"
proof (induction ts arbitrary: s)
  case Nil
  then show ?case by simp
next
  case (Cons t ts)
  have "scoped_measure (scoped_run ts (scoped_sched t s)) \<le> scoped_measure (scoped_sched t s)"
    using Cons.prems by (intro Cons.IH scoped_typed_sched)
  also have "\<dots> \<le> scoped_measure s" using Cons.prems by (rule scoped_sched_le)
  finally show ?case by simp
qed

lemma scoped_some_step_decreases:
  "scoped_typed s \<Longrightarrow> \<exists>t \<in> set ts. scoped_step t s \<noteq> None \<Longrightarrow>
   scoped_measure (scoped_run ts s) < scoped_measure s"
proof (induction ts arbitrary: s)
  case Nil
  then show ?case by simp
next
  case (Cons t ts)
  show ?case
  proof (cases "scoped_step t s")
    case None
    then have same: "scoped_sched t s = s" by (simp add: scoped_sched_def)
    from None Cons.prems(2) have "\<exists>u \<in> set ts. scoped_step u s \<noteq> None" by auto
    with Cons.prems(1) have "scoped_measure (scoped_run ts s) < scoped_measure s"
      by (rule Cons.IH)
    with same show ?thesis by simp
  next
    case (Some s')
    then have next_state: "scoped_sched t s = s'" by (simp add: scoped_sched_def)
    from Cons.prems(1) Some have lt: "scoped_measure s' < scoped_measure s"
      by (rule scoped_step_decreases)
    from Cons.prems(1) Some have "scoped_typed s'" by (rule scoped_typed_step)
    then have "scoped_measure (scoped_run ts s') \<le> scoped_measure s'" by (rule scoped_run_le)
    with lt next_state show ?thesis by simp
  qed
qed

lemma scoped_measure_zero: "scoped_typed s \<Longrightarrow> scoped_measure s = 0 \<Longrightarrow> pc s Main = S_returned"
  by (cases "pc s Main") (simp_all add: scoped_measure_def scoped_typed_def scoped_worker_pc_def)

lemma scoped_returned_step:
  "scoped_inv s \<Longrightarrow> pc s Main = S_returned \<Longrightarrow> scoped_step t s = None"
proof -
  assume inv: "scoped_inv s" and r: "pc s Main = S_returned"
  then have f: "pc s T1 = S_finished" "pc s T2 = S_finished"
    by (simp_all add: scoped_inv_def)
  from r f show ?thesis
    by (cases t) (simp_all add: scoped_step_def scoped_main_def scoped_add_count_def)
qed

lemma scoped_returned_run:
  "scoped_inv s \<Longrightarrow> pc s Main = S_returned \<Longrightarrow> scoped_run ts s = s"
  by (induction ts) (simp_all add: scoped_sched_def scoped_returned_step)

lemma scoped_rounds_complete:
  "scoped_inv s \<Longrightarrow> scoped_typed s \<Longrightarrow> scoped_measure s \<le> n \<Longrightarrow>
   pc (scoped_run (scoped_rounds n) s) Main = S_returned"
proof (induction n arbitrary: s)
  case 0
  then show ?case by (simp add: scoped_measure_zero)
next
  case (Suc n)
  show ?case
  proof (cases "pc s Main = S_returned")
    case True
    with Suc.prems(1) show ?thesis by (simp add: scoped_returned_run)
  next
    case False
    with Suc.prems(1,2) have "\<exists>t \<in> set scoped_round. scoped_step t s \<noteq> None"
      by (rule scoped_deadlock_free)
    with Suc.prems(2) have "scoped_measure (scoped_run scoped_round s) < scoped_measure s"
      by (rule scoped_some_step_decreases)
    with Suc.prems(3) have le: "scoped_measure (scoped_run scoped_round s) \<le> n" by simp
    have i: "scoped_inv (scoped_run scoped_round s)" using Suc.prems(1) by (rule scoped_inv_run)
    have t: "scoped_typed (scoped_run scoped_round s)" using Suc.prems(2) by (rule scoped_typed_run)
    from i t le have "pc (scoped_run (scoped_rounds n) (scoped_run scoped_round s)) Main
        = S_returned"
      by (rule Suc.IH)
    then show ?thesis by (simp add: scoped_run_append)
  qed
qed

lemma scoped_measure_bound: "scoped_typed s \<Longrightarrow> scoped_measure s \<le> 13"
proof -
  have w: "\<And>p. scoped_worker_pc p \<Longrightarrow> scoped_rank p \<le> 4"
    by (auto simp: scoped_worker_pc_def)
  have a: "scoped_rank p \<le> 5" for p by (cases p) simp_all
  assume "scoped_typed s"
  then have "scoped_rank (pc s T1) \<le> 4" "scoped_rank (pc s T2) \<le> 4"
    by (simp_all add: scoped_typed_def w)
  with a [of "pc s Main"] show ?thesis by (simp add: scoped_measure_def)
qed

lemma scoped_fair_completion:
  "pc (scoped_run (scoped_rounds 13) (scoped_run sch scoped_init)) Main = S_returned"
proof -
  have i: "scoped_inv (scoped_run sch scoped_init)" by (rule scoped_inv_reachable)
  have t: "scoped_typed (scoped_run sch scoped_init)" by (rule scoped_typed_run [OF scoped_typed_init])
  from i t scoped_measure_bound [OF t] show ?thesis by (rule scoped_rounds_complete)
qed

section \<open>Proofs for the end-to-end scenario\<close>

lemma mutex_scenario_inv_init: "mutex_scenario_inv n (mutex_scenario_init n)"
  by (simp add: mutex_scenario_inv_def mutex_scenario_init_def mutex_init_def mutex_in_cs_def
      mutex_calls_done_def mutex_worker_inv_def)

lemma mutex_scenario_inv_main:
  "mutex_scenario_inv n (s, r) \<Longrightarrow> mutex_main s = Some s' \<Longrightarrow> mutex_scenario_inv n (s', r)"
  unfolding mutex_main_def
  by (cases "pc s Main";
      clarsimp simp: mutex_scenario_inv_def mutex_in_cs_def mutex_calls_done_def
        mutex_worker_inv_def split: if_splits)

lemma mutex_scenario_inv_calls_T1:
  "mutex_scenario_inv n (s, r) \<Longrightarrow> mutex_calls T1 (s, r) = Some (s', r') \<Longrightarrow>
   mutex_scenario_inv n (s', r')"
  unfolding mutex_calls_def mutex_add_count_def
  by (cases "pc s T1"; cases "m s"; cases "r T1";
      clarsimp simp: mutex_scenario_inv_def mutex_in_cs_def mutex_calls_done_def
        mutex_worker_inv_def lock_def unlock_def; auto)

lemma mutex_scenario_inv_calls_T2:
  "mutex_scenario_inv n (s, r) \<Longrightarrow> mutex_calls T2 (s, r) = Some (s', r') \<Longrightarrow>
   mutex_scenario_inv n (s', r')"
  unfolding mutex_calls_def mutex_add_count_def
  by (cases "pc s T2"; cases "m s"; cases "r T2";
      clarsimp simp: mutex_scenario_inv_def mutex_in_cs_def mutex_calls_done_def
        mutex_worker_inv_def lock_def unlock_def; auto)

lemma mutex_scenario_inv_step:
  "mutex_scenario_inv n sr \<Longrightarrow> mutex_scenario_step t sr = Some sr' \<Longrightarrow> mutex_scenario_inv n sr'"
  unfolding mutex_scenario_step_def
  by (cases sr; cases sr')
    (auto split: if_splits option.splits
      intro: mutex_scenario_inv_main mutex_scenario_inv_calls_T1 mutex_scenario_inv_calls_T2)

lemma mutex_scenario_inv_sched:
  "mutex_scenario_inv n sr \<Longrightarrow> mutex_scenario_inv n (mutex_scenario_sched t sr)"
  unfolding mutex_scenario_sched_def
  by (auto split: option.splits intro: mutex_scenario_inv_step)

lemma mutex_scenario_inv_run:
  "mutex_scenario_inv n sr \<Longrightarrow> mutex_scenario_inv n (mutex_scenario_run sch sr)"
  by (induction sch arbitrary: sr) (simp_all add: mutex_scenario_inv_sched)

lemma mutex_scenario_joined:
  "mutex_scenario_inv n sr \<Longrightarrow> pc (fst sr) Main = M_print \<or> pc (fst sr) Main = M_returned \<Longrightarrow>
   count (fst sr) = 2 * int n"
  by (auto simp: mutex_scenario_inv_def mutex_calls_done_def mutex_worker_inv_def)

lemma mutex_scenario_main_decreases:
  "mutex_scenario_inv n (s, r) \<Longrightarrow> mutex_main s = Some s' \<Longrightarrow>
   mutex_scenario_measure (s', r) < mutex_scenario_measure (s, r)"
  unfolding mutex_main_def
  by (cases "pc s Main";
      clarsimp simp: mutex_scenario_measure_def mutex_scenario_inv_def split: if_splits)

lemma mutex_scenario_calls_decreases:
  "mutex_worker_inv n (s, r) t \<Longrightarrow> t = T1 \<or> t = T2 \<Longrightarrow> mutex_calls t (s, r) = Some (s', r') \<Longrightarrow>
   mutex_scenario_measure (s', r') < mutex_scenario_measure (s, r)"
  unfolding mutex_calls_def mutex_add_count_def
  by (cases "pc s t"; cases "m s"; cases "r t"; elim disjE;
      clarsimp simp: mutex_scenario_measure_def mutex_worker_inv_def mutex_in_cs_def lock_def)

lemma mutex_scenario_step_decreases:
  "mutex_scenario_inv n sr \<Longrightarrow> mutex_scenario_step t sr = Some sr' \<Longrightarrow>
   mutex_scenario_measure sr' < mutex_scenario_measure sr"
proof -
  assume inv: "mutex_scenario_inv n sr" and st: "mutex_scenario_step t sr = Some sr'"
  obtain s r where sr: "sr = (s, r)" by (cases sr)
  obtain s' r' where sr': "sr' = (s', r')" by (cases sr')
  from inv sr have w: "mutex_worker_inv n (s, r) T1" "mutex_worker_inv n (s, r) T2"
    by (simp_all add: mutex_scenario_inv_def)
  show ?thesis
  proof (cases "t = Main")
    case True
    with st sr sr' have "mutex_main s = Some s'" "r' = r"
      by (auto simp: mutex_scenario_step_def split: option.splits)
    with inv sr sr' show ?thesis by (simp add: mutex_scenario_main_decreases)
  next
    case False
    with st sr sr' have t: "t = T1 \<or> t = T2" and c: "mutex_calls t (s, r) = Some (s', r')"
      by (auto simp: mutex_scenario_step_def split: if_splits)
    from t w have "mutex_worker_inv n (s, r) t" by auto
    from this t c show ?thesis unfolding sr sr' by (rule mutex_scenario_calls_decreases)
  qed
qed

lemma mutex_scenario_deadlock_free:
  assumes "mutex_scenario_inv n sr" and "pc (fst sr) Main \<noteq> M_returned"
  shows "\<exists>t \<in> set mutex_scenario_round. mutex_scenario_step t sr \<noteq> None"
proof (rule ccontr)
  assume no: "\<not> ?thesis"
  obtain s r where sr: "sr = (s, r)" by (cases sr)
  from no have "\<forall>t \<in> set mutex_scenario_round. mutex_scenario_step t sr = None" by blast
  then have stuck: "mutex_scenario_step Main sr = None" "mutex_scenario_step T1 sr = None"
    "mutex_scenario_step T2 sr = None"
    by (simp_all add: mutex_scenario_round_def)
  from stuck(1) sr have n0: "mutex_main s = None"
    by (simp add: mutex_scenario_step_def split: option.splits)
  from stuck(2) sr have n1: "mutex_calls T1 (s, r) = None"
    by (simp add: mutex_scenario_step_def)
  from stuck(3) sr have n2: "mutex_calls T2 (s, r) = None"
    by (simp add: mutex_scenario_step_def)
  from assms(1) sr have held: "m s = (mutex_in_cs (pc s T1) \<or> mutex_in_cs (pc s T2))"
    and w1: "mutex_worker_inv n (s, r) T1" and w2: "mutex_worker_inv n (s, r) T2"
    and st1: "(pc s T1 = M_not_started) = (pc s Main = M_spawn_t1)"
    and st2: "(pc s T2 = M_not_started) = (pc s Main = M_spawn_t1 \<or> pc s Main = M_spawn_t2)"
    and mp: "pc s Main = M_spawn_t1 \<or> pc s Main = M_spawn_t2 \<or> pc s Main = M_join_t1 \<or>
      pc s Main = M_join_t2 \<or> pc s Main = M_print \<or> pc s Main = M_returned"
    by (simp_all add: mutex_scenario_inv_def)
  from n0 mp assms(2) sr have bm: "(pc s Main = M_join_t1 \<and> pc s T1 \<noteq> M_finished) \<or>
      (pc s Main = M_join_t2 \<and> pc s T2 \<noteq> M_finished)"
    by (auto simp: mutex_main_def split: if_splits)
  with st1 st2 have started: "pc s T1 \<noteq> M_not_started" "pc s T2 \<noteq> M_not_started" by auto
  have blocked: "pc s t = M_finished \<or> (pc s t = M_lock \<and> m s)"
    if "mutex_worker_inv n (s, r) t" "mutex_calls t (s, r) = None" "pc s t \<noteq> M_not_started"
    for t
    using that unfolding mutex_calls_def mutex_add_count_def
    by (cases "pc s t"; cases "m s";
        simp add: mutex_worker_inv_def mutex_in_cs_def lock_def split: if_splits)
  note b1 = blocked [OF w1 n1 started(1)]
  note b2 = blocked [OF w2 n2 started(2)]
  from b1 have c1: "\<not> mutex_in_cs (pc s T1)" by (auto simp: mutex_in_cs_def)
  from b2 have c2: "\<not> mutex_in_cs (pc s T2)" by (auto simp: mutex_in_cs_def)
  from held c1 c2 have free: "\<not> m s" by simp
  with b1 have f1: "pc s T1 = M_finished" by blast
  from free b2 have f2: "pc s T2 = M_finished" by blast
  from bm f1 f2 show False by blast
qed

lemma mutex_scenario_run_append:
  "mutex_scenario_run (ts @ us) sr = mutex_scenario_run us (mutex_scenario_run ts sr)"
  by (induction ts arbitrary: sr) simp_all

lemma mutex_scenario_sched_le:
  "mutex_scenario_inv n sr \<Longrightarrow>
   mutex_scenario_measure (mutex_scenario_sched t sr) \<le> mutex_scenario_measure sr"
  unfolding mutex_scenario_sched_def
  by (auto split: option.splits dest: mutex_scenario_step_decreases)

lemma mutex_scenario_run_le:
  "mutex_scenario_inv n sr \<Longrightarrow>
   mutex_scenario_measure (mutex_scenario_run ts sr) \<le> mutex_scenario_measure sr"
proof (induction ts arbitrary: sr)
  case Nil
  then show ?case by simp
next
  case (Cons t ts)
  have "mutex_scenario_measure (mutex_scenario_run ts (mutex_scenario_sched t sr))
      \<le> mutex_scenario_measure (mutex_scenario_sched t sr)"
    using Cons.prems by (intro Cons.IH mutex_scenario_inv_sched)
  also have "\<dots> \<le> mutex_scenario_measure sr" using Cons.prems by (rule mutex_scenario_sched_le)
  finally show ?case by simp
qed

lemma mutex_scenario_some_step_decreases:
  "mutex_scenario_inv n sr \<Longrightarrow> \<exists>t \<in> set ts. mutex_scenario_step t sr \<noteq> None \<Longrightarrow>
   mutex_scenario_measure (mutex_scenario_run ts sr) < mutex_scenario_measure sr"
proof (induction ts arbitrary: sr)
  case Nil
  then show ?case by simp
next
  case (Cons t ts)
  show ?case
  proof (cases "mutex_scenario_step t sr")
    case None
    then have same: "mutex_scenario_sched t sr = sr" by (simp add: mutex_scenario_sched_def)
    from None Cons.prems(2) have "\<exists>u \<in> set ts. mutex_scenario_step u sr \<noteq> None" by auto
    with Cons.prems(1)
    have "mutex_scenario_measure (mutex_scenario_run ts sr) < mutex_scenario_measure sr"
      by (rule Cons.IH)
    with same show ?thesis by simp
  next
    case (Some sr')
    then have next_state: "mutex_scenario_sched t sr = sr'"
      by (simp add: mutex_scenario_sched_def)
    from Cons.prems(1) Some have lt: "mutex_scenario_measure sr' < mutex_scenario_measure sr"
      by (rule mutex_scenario_step_decreases)
    from Cons.prems(1) Some have "mutex_scenario_inv n sr'" by (rule mutex_scenario_inv_step)
    then have "mutex_scenario_measure (mutex_scenario_run ts sr') \<le> mutex_scenario_measure sr'"
      by (rule mutex_scenario_run_le)
    with lt next_state show ?thesis by simp
  qed
qed

lemma mutex_scenario_measure_zero:
  "mutex_scenario_inv n sr \<Longrightarrow> mutex_scenario_measure sr = 0 \<Longrightarrow> pc (fst sr) Main = M_returned"
proof -
  assume inv: "mutex_scenario_inv n sr" and z: "mutex_scenario_measure sr = 0"
  from inv have mp: "pc (fst sr) Main = M_spawn_t1 \<or> pc (fst sr) Main = M_spawn_t2 \<or>
      pc (fst sr) Main = M_join_t1 \<or> pc (fst sr) Main = M_join_t2 \<or>
      pc (fst sr) Main = M_print \<or> pc (fst sr) Main = M_returned"
    by (simp add: mutex_scenario_inv_def)
  from z have "mutex_call_rank (pc (fst sr) Main) = 0" by (simp add: mutex_scenario_measure_def)
  with mp show ?thesis by auto
qed

lemma mutex_scenario_returned_step:
  "mutex_scenario_inv n sr \<Longrightarrow> pc (fst sr) Main = M_returned \<Longrightarrow> mutex_scenario_step t sr = None"
proof -
  assume inv: "mutex_scenario_inv n sr" and r: "pc (fst sr) Main = M_returned"
  obtain s r' where sr: "sr = (s, r')" by (cases sr)
  from inv r sr have f: "pc s T1 = M_finished" "pc s T2 = M_finished" "pc s Main = M_returned"
    by (simp_all add: mutex_scenario_inv_def)
  from f show ?thesis unfolding sr
    by (cases t)
      (simp_all add: mutex_scenario_step_def mutex_main_def mutex_calls_def mutex_add_count_def)
qed

lemma mutex_scenario_returned_run:
  "mutex_scenario_inv n sr \<Longrightarrow> pc (fst sr) Main = M_returned \<Longrightarrow> mutex_scenario_run ts sr = sr"
  by (induction ts) (simp_all add: mutex_scenario_sched_def mutex_scenario_returned_step)

lemma mutex_scenario_rounds_complete:
  "mutex_scenario_inv n sr \<Longrightarrow> mutex_scenario_measure sr \<le> k \<Longrightarrow>
   pc (fst (mutex_scenario_run (mutex_scenario_rounds k) sr)) Main = M_returned"
proof (induction k arbitrary: sr)
  case 0
  then show ?case by (simp add: mutex_scenario_measure_zero)
next
  case (Suc k)
  show ?case
  proof (cases "pc (fst sr) Main = M_returned")
    case True
    with Suc.prems(1) show ?thesis by (simp add: mutex_scenario_returned_run)
  next
    case False
    with Suc.prems(1)
    have "\<exists>t \<in> set mutex_scenario_round. mutex_scenario_step t sr \<noteq> None"
      by (rule mutex_scenario_deadlock_free)
    with Suc.prems(1)
    have "mutex_scenario_measure (mutex_scenario_run mutex_scenario_round sr)
        < mutex_scenario_measure sr"
      by (rule mutex_scenario_some_step_decreases)
    with Suc.prems(2)
    have le: "mutex_scenario_measure (mutex_scenario_run mutex_scenario_round sr) \<le> k" by simp
    have i: "mutex_scenario_inv n (mutex_scenario_run mutex_scenario_round sr)"
      using Suc.prems(1) by (rule mutex_scenario_inv_run)
    from i le
    have "pc (fst (mutex_scenario_run (mutex_scenario_rounds k)
        (mutex_scenario_run mutex_scenario_round sr))) Main = M_returned"
      by (rule Suc.IH)
    then show ?thesis by (simp add: mutex_scenario_run_append)
  qed
qed

lemma mutex_scenario_measure_bound:
  "mutex_scenario_inv n sr \<Longrightarrow> mutex_scenario_measure sr \<le> 8 * n + 11"
proof -
  assume inv: "mutex_scenario_inv n sr"
  have w: "4 * snd sr t + mutex_call_rank (pc (fst sr) t) \<le> 4 * n + 3"
    if "mutex_worker_inv n sr t" for t
    using that by (auto simp: mutex_worker_inv_def mutex_in_cs_def)
  have a: "mutex_call_rank p \<le> 5" for p by (cases p) simp_all
  from inv have "mutex_worker_inv n sr T1" "mutex_worker_inv n sr T2"
    by (simp_all add: mutex_scenario_inv_def)
  then have "4 * snd sr T1 + mutex_call_rank (pc (fst sr) T1) \<le> 4 * n + 3"
    "4 * snd sr T2 + mutex_call_rank (pc (fst sr) T2) \<le> 4 * n + 3"
    by (simp_all add: w)
  with a [of "pc (fst sr) Main"] show ?thesis by (simp add: mutex_scenario_measure_def)
qed

lemma mutex_scenario_completes:
  "pc (fst (mutex_scenario_run (mutex_scenario_rounds (8 * n + 11))
     (mutex_scenario_run sch (mutex_scenario_init n)))) Main = M_returned"
proof -
  have i: "mutex_scenario_inv n (mutex_scenario_run sch (mutex_scenario_init n))"
    by (rule mutex_scenario_inv_run [OF mutex_scenario_inv_init])
  from i mutex_scenario_measure_bound [OF i] show ?thesis by (rule mutex_scenario_rounds_complete)
qed

lemma scoped_scenario_inv_init: "scoped_scenario_inv n (scoped_scenario_init n)"
  by (simp add: scoped_scenario_inv_def scoped_scenario_init_def scoped_init_def scoped_in_cs_def
      scoped_calls_done_def scoped_worker_inv_def)

lemma scoped_scenario_inv_main:
  "scoped_scenario_inv n (s, r) \<Longrightarrow> scoped_main s = Some s' \<Longrightarrow> scoped_scenario_inv n (s', r)"
  unfolding scoped_main_def
  by (cases "pc s Main";
      clarsimp simp: scoped_scenario_inv_def scoped_in_cs_def scoped_calls_done_def
        scoped_worker_inv_def split: if_splits)

lemma scoped_scenario_inv_calls_T1:
  "scoped_scenario_inv n (s, r) \<Longrightarrow> scoped_calls T1 (s, r) = Some (s', r') \<Longrightarrow>
   scoped_scenario_inv n (s', r')"
  unfolding scoped_calls_def scoped_add_count_def
  by (cases "pc s T1"; cases "m s"; cases "r T1";
      clarsimp simp: scoped_scenario_inv_def scoped_in_cs_def scoped_calls_done_def
        scoped_worker_inv_def scoped_lock_ctor_def scoped_lock_dtor_def lock_def unlock_def; auto)

lemma scoped_scenario_inv_calls_T2:
  "scoped_scenario_inv n (s, r) \<Longrightarrow> scoped_calls T2 (s, r) = Some (s', r') \<Longrightarrow>
   scoped_scenario_inv n (s', r')"
  unfolding scoped_calls_def scoped_add_count_def
  by (cases "pc s T2"; cases "m s"; cases "r T2";
      clarsimp simp: scoped_scenario_inv_def scoped_in_cs_def scoped_calls_done_def
        scoped_worker_inv_def scoped_lock_ctor_def scoped_lock_dtor_def lock_def unlock_def; auto)

lemma scoped_scenario_inv_step:
  "scoped_scenario_inv n sr \<Longrightarrow> scoped_scenario_step t sr = Some sr' \<Longrightarrow> scoped_scenario_inv n sr'"
  unfolding scoped_scenario_step_def
  by (cases sr; cases sr')
    (auto split: if_splits option.splits
      intro: scoped_scenario_inv_main scoped_scenario_inv_calls_T1 scoped_scenario_inv_calls_T2)

lemma scoped_scenario_inv_sched:
  "scoped_scenario_inv n sr \<Longrightarrow> scoped_scenario_inv n (scoped_scenario_sched t sr)"
  unfolding scoped_scenario_sched_def
  by (auto split: option.splits intro: scoped_scenario_inv_step)

lemma scoped_scenario_inv_run:
  "scoped_scenario_inv n sr \<Longrightarrow> scoped_scenario_inv n (scoped_scenario_run sch sr)"
  by (induction sch arbitrary: sr) (simp_all add: scoped_scenario_inv_sched)

lemma scoped_scenario_joined:
  "scoped_scenario_inv n sr \<Longrightarrow> pc (fst sr) Main = S_print \<or> pc (fst sr) Main = S_returned \<Longrightarrow>
   count (fst sr) = 2 * int n"
  by (auto simp: scoped_scenario_inv_def scoped_calls_done_def scoped_worker_inv_def)

lemma scoped_scenario_main_decreases:
  "scoped_scenario_inv n (s, r) \<Longrightarrow> scoped_main s = Some s' \<Longrightarrow>
   scoped_scenario_measure (s', r) < scoped_scenario_measure (s, r)"
  unfolding scoped_main_def
  by (cases "pc s Main";
      clarsimp simp: scoped_scenario_measure_def scoped_scenario_inv_def split: if_splits)

lemma scoped_scenario_calls_decreases:
  "scoped_worker_inv n (s, r) t \<Longrightarrow> t = T1 \<or> t = T2 \<Longrightarrow> scoped_calls t (s, r) = Some (s', r') \<Longrightarrow>
   scoped_scenario_measure (s', r') < scoped_scenario_measure (s, r)"
  unfolding scoped_calls_def scoped_add_count_def
  by (cases "pc s t"; cases "m s"; cases "r t"; elim disjE;
      clarsimp simp: scoped_scenario_measure_def scoped_worker_inv_def scoped_in_cs_def scoped_lock_ctor_def lock_def)

lemma scoped_scenario_step_decreases:
  "scoped_scenario_inv n sr \<Longrightarrow> scoped_scenario_step t sr = Some sr' \<Longrightarrow>
   scoped_scenario_measure sr' < scoped_scenario_measure sr"
proof -
  assume inv: "scoped_scenario_inv n sr" and st: "scoped_scenario_step t sr = Some sr'"
  obtain s r where sr: "sr = (s, r)" by (cases sr)
  obtain s' r' where sr': "sr' = (s', r')" by (cases sr')
  from inv sr have w: "scoped_worker_inv n (s, r) T1" "scoped_worker_inv n (s, r) T2"
    by (simp_all add: scoped_scenario_inv_def)
  show ?thesis
  proof (cases "t = Main")
    case True
    with st sr sr' have "scoped_main s = Some s'" "r' = r"
      by (auto simp: scoped_scenario_step_def split: option.splits)
    with inv sr sr' show ?thesis by (simp add: scoped_scenario_main_decreases)
  next
    case False
    with st sr sr' have t: "t = T1 \<or> t = T2" and c: "scoped_calls t (s, r) = Some (s', r')"
      by (auto simp: scoped_scenario_step_def split: if_splits)
    from t w have "scoped_worker_inv n (s, r) t" by auto
    from this t c show ?thesis unfolding sr sr' by (rule scoped_scenario_calls_decreases)
  qed
qed

lemma scoped_scenario_deadlock_free:
  assumes "scoped_scenario_inv n sr" and "pc (fst sr) Main \<noteq> S_returned"
  shows "\<exists>t \<in> set scoped_scenario_round. scoped_scenario_step t sr \<noteq> None"
proof (rule ccontr)
  assume no: "\<not> ?thesis"
  obtain s r where sr: "sr = (s, r)" by (cases sr)
  from no have "\<forall>t \<in> set scoped_scenario_round. scoped_scenario_step t sr = None" by blast
  then have stuck: "scoped_scenario_step Main sr = None" "scoped_scenario_step T1 sr = None"
    "scoped_scenario_step T2 sr = None"
    by (simp_all add: scoped_scenario_round_def)
  from stuck(1) sr have n0: "scoped_main s = None"
    by (simp add: scoped_scenario_step_def split: option.splits)
  from stuck(2) sr have n1: "scoped_calls T1 (s, r) = None"
    by (simp add: scoped_scenario_step_def)
  from stuck(3) sr have n2: "scoped_calls T2 (s, r) = None"
    by (simp add: scoped_scenario_step_def)
  from assms(1) sr have held: "m s = (scoped_in_cs (pc s T1) \<or> scoped_in_cs (pc s T2))"
    and w1: "scoped_worker_inv n (s, r) T1" and w2: "scoped_worker_inv n (s, r) T2"
    and st1: "(pc s T1 = S_not_started) = (pc s Main = S_spawn_t1)"
    and st2: "(pc s T2 = S_not_started) = (pc s Main = S_spawn_t1 \<or> pc s Main = S_spawn_t2)"
    and mp: "pc s Main = S_spawn_t1 \<or> pc s Main = S_spawn_t2 \<or> pc s Main = S_join_t1 \<or>
      pc s Main = S_join_t2 \<or> pc s Main = S_print \<or> pc s Main = S_returned"
    by (simp_all add: scoped_scenario_inv_def)
  from n0 mp assms(2) sr have bm: "(pc s Main = S_join_t1 \<and> pc s T1 \<noteq> S_finished) \<or>
      (pc s Main = S_join_t2 \<and> pc s T2 \<noteq> S_finished)"
    by (auto simp: scoped_main_def split: if_splits)
  with st1 st2 have started: "pc s T1 \<noteq> S_not_started" "pc s T2 \<noteq> S_not_started" by auto
  have blocked: "pc s t = S_finished \<or> (pc s t = S_slk_ctor \<and> m s)"
    if "scoped_worker_inv n (s, r) t" "scoped_calls t (s, r) = None" "pc s t \<noteq> S_not_started"
    for t
    using that unfolding scoped_calls_def scoped_add_count_def
    by (cases "pc s t"; cases "m s";
        simp add: scoped_worker_inv_def scoped_in_cs_def scoped_lock_ctor_def lock_def split: if_splits)
  note b1 = blocked [OF w1 n1 started(1)]
  note b2 = blocked [OF w2 n2 started(2)]
  from b1 have c1: "\<not> scoped_in_cs (pc s T1)" by (auto simp: scoped_in_cs_def)
  from b2 have c2: "\<not> scoped_in_cs (pc s T2)" by (auto simp: scoped_in_cs_def)
  from held c1 c2 have free: "\<not> m s" by simp
  with b1 have f1: "pc s T1 = S_finished" by blast
  from free b2 have f2: "pc s T2 = S_finished" by blast
  from bm f1 f2 show False by blast
qed

lemma scoped_scenario_run_append:
  "scoped_scenario_run (ts @ us) sr = scoped_scenario_run us (scoped_scenario_run ts sr)"
  by (induction ts arbitrary: sr) simp_all

lemma scoped_scenario_sched_le:
  "scoped_scenario_inv n sr \<Longrightarrow>
   scoped_scenario_measure (scoped_scenario_sched t sr) \<le> scoped_scenario_measure sr"
  unfolding scoped_scenario_sched_def
  by (auto split: option.splits dest: scoped_scenario_step_decreases)

lemma scoped_scenario_run_le:
  "scoped_scenario_inv n sr \<Longrightarrow>
   scoped_scenario_measure (scoped_scenario_run ts sr) \<le> scoped_scenario_measure sr"
proof (induction ts arbitrary: sr)
  case Nil
  then show ?case by simp
next
  case (Cons t ts)
  have "scoped_scenario_measure (scoped_scenario_run ts (scoped_scenario_sched t sr))
      \<le> scoped_scenario_measure (scoped_scenario_sched t sr)"
    using Cons.prems by (intro Cons.IH scoped_scenario_inv_sched)
  also have "\<dots> \<le> scoped_scenario_measure sr" using Cons.prems by (rule scoped_scenario_sched_le)
  finally show ?case by simp
qed

lemma scoped_scenario_some_step_decreases:
  "scoped_scenario_inv n sr \<Longrightarrow> \<exists>t \<in> set ts. scoped_scenario_step t sr \<noteq> None \<Longrightarrow>
   scoped_scenario_measure (scoped_scenario_run ts sr) < scoped_scenario_measure sr"
proof (induction ts arbitrary: sr)
  case Nil
  then show ?case by simp
next
  case (Cons t ts)
  show ?case
  proof (cases "scoped_scenario_step t sr")
    case None
    then have same: "scoped_scenario_sched t sr = sr" by (simp add: scoped_scenario_sched_def)
    from None Cons.prems(2) have "\<exists>u \<in> set ts. scoped_scenario_step u sr \<noteq> None" by auto
    with Cons.prems(1)
    have "scoped_scenario_measure (scoped_scenario_run ts sr) < scoped_scenario_measure sr"
      by (rule Cons.IH)
    with same show ?thesis by simp
  next
    case (Some sr')
    then have next_state: "scoped_scenario_sched t sr = sr'"
      by (simp add: scoped_scenario_sched_def)
    from Cons.prems(1) Some have lt: "scoped_scenario_measure sr' < scoped_scenario_measure sr"
      by (rule scoped_scenario_step_decreases)
    from Cons.prems(1) Some have "scoped_scenario_inv n sr'" by (rule scoped_scenario_inv_step)
    then have "scoped_scenario_measure (scoped_scenario_run ts sr') \<le> scoped_scenario_measure sr'"
      by (rule scoped_scenario_run_le)
    with lt next_state show ?thesis by simp
  qed
qed

lemma scoped_scenario_measure_zero:
  "scoped_scenario_inv n sr \<Longrightarrow> scoped_scenario_measure sr = 0 \<Longrightarrow> pc (fst sr) Main = S_returned"
proof -
  assume inv: "scoped_scenario_inv n sr" and z: "scoped_scenario_measure sr = 0"
  from inv have mp: "pc (fst sr) Main = S_spawn_t1 \<or> pc (fst sr) Main = S_spawn_t2 \<or>
      pc (fst sr) Main = S_join_t1 \<or> pc (fst sr) Main = S_join_t2 \<or>
      pc (fst sr) Main = S_print \<or> pc (fst sr) Main = S_returned"
    by (simp add: scoped_scenario_inv_def)
  from z have "scoped_call_rank (pc (fst sr) Main) = 0" by (simp add: scoped_scenario_measure_def)
  with mp show ?thesis by auto
qed

lemma scoped_scenario_returned_step:
  "scoped_scenario_inv n sr \<Longrightarrow> pc (fst sr) Main = S_returned \<Longrightarrow> scoped_scenario_step t sr = None"
proof -
  assume inv: "scoped_scenario_inv n sr" and r: "pc (fst sr) Main = S_returned"
  obtain s r' where sr: "sr = (s, r')" by (cases sr)
  from inv r sr have f: "pc s T1 = S_finished" "pc s T2 = S_finished" "pc s Main = S_returned"
    by (simp_all add: scoped_scenario_inv_def)
  from f show ?thesis unfolding sr
    by (cases t)
      (simp_all add: scoped_scenario_step_def scoped_main_def scoped_calls_def scoped_add_count_def)
qed

lemma scoped_scenario_returned_run:
  "scoped_scenario_inv n sr \<Longrightarrow> pc (fst sr) Main = S_returned \<Longrightarrow> scoped_scenario_run ts sr = sr"
  by (induction ts) (simp_all add: scoped_scenario_sched_def scoped_scenario_returned_step)

lemma scoped_scenario_rounds_complete:
  "scoped_scenario_inv n sr \<Longrightarrow> scoped_scenario_measure sr \<le> k \<Longrightarrow>
   pc (fst (scoped_scenario_run (scoped_scenario_rounds k) sr)) Main = S_returned"
proof (induction k arbitrary: sr)
  case 0
  then show ?case by (simp add: scoped_scenario_measure_zero)
next
  case (Suc k)
  show ?case
  proof (cases "pc (fst sr) Main = S_returned")
    case True
    with Suc.prems(1) show ?thesis by (simp add: scoped_scenario_returned_run)
  next
    case False
    with Suc.prems(1)
    have "\<exists>t \<in> set scoped_scenario_round. scoped_scenario_step t sr \<noteq> None"
      by (rule scoped_scenario_deadlock_free)
    with Suc.prems(1)
    have "scoped_scenario_measure (scoped_scenario_run scoped_scenario_round sr)
        < scoped_scenario_measure sr"
      by (rule scoped_scenario_some_step_decreases)
    with Suc.prems(2)
    have le: "scoped_scenario_measure (scoped_scenario_run scoped_scenario_round sr) \<le> k" by simp
    have i: "scoped_scenario_inv n (scoped_scenario_run scoped_scenario_round sr)"
      using Suc.prems(1) by (rule scoped_scenario_inv_run)
    from i le
    have "pc (fst (scoped_scenario_run (scoped_scenario_rounds k)
        (scoped_scenario_run scoped_scenario_round sr))) Main = S_returned"
      by (rule Suc.IH)
    then show ?thesis by (simp add: scoped_scenario_run_append)
  qed
qed

lemma scoped_scenario_measure_bound:
  "scoped_scenario_inv n sr \<Longrightarrow> scoped_scenario_measure sr \<le> 8 * n + 11"
proof -
  assume inv: "scoped_scenario_inv n sr"
  have w: "4 * snd sr t + scoped_call_rank (pc (fst sr) t) \<le> 4 * n + 3"
    if "scoped_worker_inv n sr t" for t
    using that by (auto simp: scoped_worker_inv_def scoped_in_cs_def)
  have a: "scoped_call_rank p \<le> 5" for p by (cases p) simp_all
  from inv have "scoped_worker_inv n sr T1" "scoped_worker_inv n sr T2"
    by (simp_all add: scoped_scenario_inv_def)
  then have "4 * snd sr T1 + scoped_call_rank (pc (fst sr) T1) \<le> 4 * n + 3"
    "4 * snd sr T2 + scoped_call_rank (pc (fst sr) T2) \<le> 4 * n + 3"
    by (simp_all add: w)
  with a [of "pc (fst sr) Main"] show ?thesis by (simp add: scoped_scenario_measure_def)
qed

lemma scoped_scenario_completes:
  "pc (fst (scoped_scenario_run (scoped_scenario_rounds (8 * n + 11))
     (scoped_scenario_run sch (scoped_scenario_init n)))) Main = S_returned"
proof -
  have i: "scoped_scenario_inv n (scoped_scenario_run sch (scoped_scenario_init n))"
    by (rule scoped_scenario_inv_run [OF scoped_scenario_inv_init])
  from i scoped_scenario_measure_bound [OF i] show ?thesis by (rule scoped_scenario_rounds_complete)
qed

lemmas mutex_defs = mutex_sched_def mutex_step_def mutex_main_def mutex_add_count_def
  mutex_init_def mutex_in_cs_def lock_def unlock_def

lemmas scoped_defs = scoped_sched_def scoped_step_def scoped_main_def scoped_add_count_def
  scoped_init_def scoped_in_cs_def scoped_lock_ctor_def scoped_lock_dtor_def lock_def unlock_def

section \<open>The value of the counter after the joins\<close>

text \<open>
  The programs as they are: each thread calls \<^verbatim>\<open>add_count\<close> once. In every execution of
  mutex.cpp and of scoped\_lock.cpp, once \<^verbatim>\<open>main\<close> has joined both threads the counter
  equals 2, and 2 is the one number the program prints; from every reachable state 13
  rounds of a fair schedule end \<^verbatim>\<open>main\<close>.
\<close>

lemma programs_print_2:
  "(pc (mutex_run sch mutex_init) Main = M_print \<or>
    pc (mutex_run sch mutex_init) Main = M_returned \<longrightarrow>
      count (mutex_run sch mutex_init) = 2) \<and>
   (pc (mutex_run sch mutex_init) Main = M_returned \<longrightarrow>
      out (mutex_run sch mutex_init) = [2]) \<and>
   (pc (scoped_run sch' scoped_init) Main = S_print \<or>
    pc (scoped_run sch' scoped_init) Main = S_returned \<longrightarrow>
      count (scoped_run sch' scoped_init) = 2) \<and>
   (pc (scoped_run sch' scoped_init) Main = S_returned \<longrightarrow>
      out (scoped_run sch' scoped_init) = [2]) \<and>
   pc (mutex_run (mutex_rounds 13) (mutex_run sch mutex_init)) Main = M_returned \<and>
   out (mutex_run (mutex_rounds 13) (mutex_run sch mutex_init)) = [2] \<and>
   pc (scoped_run (scoped_rounds 13) (scoped_run sch' scoped_init)) Main = S_returned \<and>
   out (scoped_run (scoped_rounds 13) (scoped_run sch' scoped_init)) = [2]"
proof -
  let ?s = "mutex_run sch mutex_init" and ?r = "scoped_run sch' scoped_init"
  let ?sf = "mutex_run (mutex_rounds 13) ?s" and ?rf = "scoped_run (scoped_rounds 13) ?r"
  have im: "mutex_inv ?s" and ir: "scoped_inv ?r"
    by (rule mutex_inv_reachable, rule scoped_inv_reachable)
  have a: "pc ?s Main = M_print \<or> pc ?s Main = M_returned \<longrightarrow> count ?s = 2"
    using im unfolding mutex_inv_def by auto
  have b: "pc ?s Main = M_returned \<longrightarrow> out ?s = [2]"
    using im unfolding mutex_inv_def by simp
  have c: "pc ?r Main = S_print \<or> pc ?r Main = S_returned \<longrightarrow> count ?r = 2"
    using ir unfolding scoped_inv_def by auto
  have d: "pc ?r Main = S_returned \<longrightarrow> out ?r = [2]"
    using ir unfolding scoped_inv_def by simp
  have e: "pc ?sf Main = M_returned" by (rule mutex_fair_completion)
  have "mutex_inv ?sf" using im by (rule mutex_inv_run)
  with e have f: "out ?sf = [2]" by (simp add: mutex_inv_def)
  have g: "pc ?rf Main = S_returned" by (rule scoped_fair_completion)
  have "scoped_inv ?rf" using ir by (rule scoped_inv_run)
  with g have h: "out ?rf = [2]" by (simp add: scoped_inv_def)
  from a b c d e f g h show ?thesis by blast
qed

text \<open>
  Claim C2. In the end-to-end scenario two threads each increment the shared counter 1000
  times, every increment a call of \<^verbatim>\<open>add_count\<close> under the mutex. Under every schedule,
  once \<^verbatim>\<open>main\<close> has joined both threads the counter equals exactly 2000, and 2000 is the
  number that is printed; this holds with \<^verbatim>\<open>add_count\<close> of mutex.cpp and with
  \<^verbatim>\<open>add_count\<close> of scoped\_lock.cpp. The joins do come: from every reachable state 8011
  rounds of a fair schedule end \<^verbatim>\<open>main\<close>.
\<close>

theorem counter_is_2000_after_1000_increments_each:
  "(pc (fst (mutex_scenario_run sch (mutex_scenario_init 1000))) Main = M_print \<or>
    pc (fst (mutex_scenario_run sch (mutex_scenario_init 1000))) Main = M_returned \<longrightarrow>
      count (fst (mutex_scenario_run sch (mutex_scenario_init 1000))) = 2000) \<and>
   (pc (fst (mutex_scenario_run sch (mutex_scenario_init 1000))) Main = M_returned \<longrightarrow>
      out (fst (mutex_scenario_run sch (mutex_scenario_init 1000))) = [2000]) \<and>
   pc (fst (mutex_scenario_run (mutex_scenario_rounds 8011)
     (mutex_scenario_run sch (mutex_scenario_init 1000)))) Main = M_returned \<and>
   (pc (fst (scoped_scenario_run sch' (scoped_scenario_init 1000))) Main = S_print \<or>
    pc (fst (scoped_scenario_run sch' (scoped_scenario_init 1000))) Main = S_returned \<longrightarrow>
      count (fst (scoped_scenario_run sch' (scoped_scenario_init 1000))) = 2000) \<and>
   (pc (fst (scoped_scenario_run sch' (scoped_scenario_init 1000))) Main = S_returned \<longrightarrow>
      out (fst (scoped_scenario_run sch' (scoped_scenario_init 1000))) = [2000]) \<and>
   pc (fst (scoped_scenario_run (scoped_scenario_rounds 8011)
     (scoped_scenario_run sch' (scoped_scenario_init 1000)))) Main = S_returned"
proof -
  let ?s = "mutex_scenario_run sch (mutex_scenario_init 1000)"
  let ?r = "scoped_scenario_run sch' (scoped_scenario_init 1000)"
  have im: "mutex_scenario_inv 1000 ?s"
    by (rule mutex_scenario_inv_run [OF mutex_scenario_inv_init])
  have ir: "scoped_scenario_inv 1000 ?r"
    by (rule scoped_scenario_inv_run [OF scoped_scenario_inv_init])
  have a: "pc (fst ?s) Main = M_print \<or> pc (fst ?s) Main = M_returned \<longrightarrow> count (fst ?s) = 2000"
    using mutex_scenario_joined [OF im] by simp
  have b: "pc (fst ?s) Main = M_returned \<longrightarrow> out (fst ?s) = [2000]"
    using im by (simp add: mutex_scenario_inv_def)
  have c: "pc (fst (mutex_scenario_run (mutex_scenario_rounds 8011) ?s)) Main = M_returned"
    using mutex_scenario_completes [of 1000 sch] by simp
  have d: "pc (fst ?r) Main = S_print \<or> pc (fst ?r) Main = S_returned \<longrightarrow> count (fst ?r) = 2000"
    using scoped_scenario_joined [OF ir] by simp
  have e: "pc (fst ?r) Main = S_returned \<longrightarrow> out (fst ?r) = [2000]"
    using ir by (simp add: scoped_scenario_inv_def)
  have f: "pc (fst (scoped_scenario_run (scoped_scenario_rounds 8011) ?r)) Main = S_returned"
    using scoped_scenario_completes [of 1000 sch'] by simp
  from a b c d e f show ?thesis by blast
qed

text \<open>
  The theorem at the fair schedule of 8011 rounds from the start: \<^verbatim>\<open>main\<close> has returned,
  the counter is 2000 and 2000 has been printed.
\<close>

theorem counter_is_2000_after_1000_increments_each_witness:
  "pc (fst (mutex_scenario_run (mutex_scenario_rounds 8011) (mutex_scenario_init 1000))) Main
     = M_returned \<and>
   count (fst (mutex_scenario_run (mutex_scenario_rounds 8011) (mutex_scenario_init 1000)))
     = 2000 \<and>
   out (fst (mutex_scenario_run (mutex_scenario_rounds 8011) (mutex_scenario_init 1000)))
     = [2000] \<and>
   pc (fst (scoped_scenario_run (scoped_scenario_rounds 8011) (scoped_scenario_init 1000))) Main
     = S_returned \<and>
   count (fst (scoped_scenario_run (scoped_scenario_rounds 8011) (scoped_scenario_init 1000)))
     = 2000 \<and>
   out (fst (scoped_scenario_run (scoped_scenario_rounds 8011) (scoped_scenario_init 1000)))
     = [2000]"
proof -
  let ?f = "mutex_scenario_rounds 8011" and ?g = "scoped_scenario_rounds 8011"
  have e1: "mutex_scenario_run [] (mutex_scenario_init 1000) = mutex_scenario_init 1000"
    by (rule mutex_scenario_run.simps(1))
  have e2: "scoped_scenario_run [] (scoped_scenario_init 1000) = scoped_scenario_init 1000"
    by (rule scoped_scenario_run.simps(1))
  note start = counter_is_2000_after_1000_increments_each [of "[]" "[]"]
  from start have r1: "pc (fst (mutex_scenario_run ?f (mutex_scenario_init 1000))) Main = M_returned"
    unfolding e1 by blast
  from start have r2: "pc (fst (scoped_scenario_run ?g (scoped_scenario_init 1000))) Main = S_returned"
    unfolding e2 by blast
  from r1 r2 counter_is_2000_after_1000_increments_each [of ?f ?g]
  show ?thesis by blast
qed

section \<open>Exit paths of add\_count\<close>

lemma mutex_stuck_add_count:
  "mutex_stuck s \<Longrightarrow> t = T1 \<or> t = T2 \<Longrightarrow> mutex_add_count t s = None"
  unfolding mutex_add_count_def
  by (cases "pc s t") (auto simp: mutex_stuck_def mutex_in_cs_def lock_def)

lemma mutex_stuck_main: "mutex_stuck s \<Longrightarrow> mutex_main s = Some s' \<Longrightarrow> mutex_stuck s'"
  unfolding mutex_main_def
  by (cases "pc s Main") (auto simp: mutex_stuck_def mutex_in_cs_def split: if_splits)

lemma mutex_stuck_sched: "mutex_stuck s \<Longrightarrow> mutex_stuck (mutex_sched t s)"
  unfolding mutex_sched_def mutex_step_def
  by (auto split: option.splits dest: mutex_stuck_add_count mutex_stuck_main)

lemma mutex_stuck_run: "mutex_stuck s \<Longrightarrow> mutex_stuck (mutex_run sch s)"
  by (induction sch arbitrary: s) (simp_all add: mutex_stuck_sched)

text \<open>
  The function of one call and the steps of a thread are two readings of the same
  \<^verbatim>\<open>add_count\<close>: with the statement of the sources, the call ends as the four steps of the
  thread do.
\<close>

lemma mutex_call_agrees_with_steps:
  "t = T1 \<or> t = T2 \<Longrightarrow> pc s t = M_lock \<Longrightarrow>
   mutex_add_count_call count_plus_1 s = Some (e, s') \<Longrightarrow>
   e = Falls_through \<and> count (mutex_run [t, t, t, t] s) = count s' \<and>
   m (mutex_run [t, t, t, t] s) = m s' \<and> pc (mutex_run [t, t, t, t] s) t = M_finished"
  by (auto simp: mutex_add_count_call_def count_plus_1_def mutex_sched_def mutex_step_def
      mutex_add_count_def lock_def unlock_def split: if_splits)

lemma scoped_call_agrees_with_steps:
  "t = T1 \<or> t = T2 \<Longrightarrow> pc s t = S_slk_ctor \<Longrightarrow>
   scoped_add_count_call count_plus_1 s = Some (e, s') \<Longrightarrow>
   e = Falls_through \<and> count (scoped_run [t, t, t, t] s) = count s' \<and>
   m (scoped_run [t, t, t, t] s) = m s' \<and> pc (scoped_run [t, t, t, t] s) t = S_finished"
  by (auto simp: scoped_add_count_call_def lock_guard_scope_def count_plus_1_def scoped_sched_def scoped_step_def
      scoped_add_count_def scoped_lock_ctor_def scoped_lock_dtor_def lock_def unlock_def
      split: if_splits)

text \<open>
  Claim C5. The guard acquires the mutex and releases it on every way out of its scope.
  For every block inside the scope and every exit path it takes (it falls through, returns
  early or raises): when \<^verbatim>\<open>m\<close> is free the block runs in a state in which \<^verbatim>\<open>m\<close> is held,
  and when control has left the scope \<^verbatim>\<open>m\<close> is free, so that the next \<open>Lock()\<close> succeeds;
  when \<^verbatim>\<open>m\<close> is held the constructor blocks. For \<^verbatim>\<open>add_count\<close> of scoped\_lock.cpp: a
  call that returns started with \<^verbatim>\<open>m\<close> free and ends with \<^verbatim>\<open>m\<close> free, on the exit path
  of its statement, and with the statement of the sources (and a counter below the largest
  \<^verbatim>\<open>int\<close>, where \<^verbatim>\<open>count += 1\<close> is defined) it falls through with the counter
  incremented. In the running program, under every schedule: a thread inside the scope of
  \<^verbatim>\<open>slk\<close> holds \<^verbatim>\<open>m\<close>; the step that ends the scope leaves \<^verbatim>\<open>m\<close> free; a thread leaves
  \<^verbatim>\<open>add_count\<close> by that step only, from a state in which \<^verbatim>\<open>m\<close> was held to one in which
  it is free; and \<^verbatim>\<open>m\<close> is free whenever no thread is inside the scope.
\<close>

theorem scoped_lock_released_on_every_exit:
  "(\<not> m s \<longrightarrow> lock_guard_scope block s =
      Some (fst (block (s\<lparr> m := True \<rparr>)), (snd (block (s\<lparr> m := True \<rparr>)))\<lparr> m := False \<rparr>)) \<and>
   (m s \<longrightarrow> lock_guard_scope block s = None) \<and>
   (lock_guard_scope block s = Some (e, s') \<longrightarrow> \<not> m s' \<and> lock (m s') = Some True) \<and>
   (scoped_add_count_call body s = Some (e, s') \<longrightarrow>
      \<not> m s \<and> \<not> m s' \<and> e = fst (body (count s)) \<and> count s' = snd (body (count s))) \<and>
   (\<not> m s \<and> count s < 2147483647 \<longrightarrow>
      scoped_add_count_call count_plus_1 s = Some (Falls_through, s\<lparr> count := count s + 1 \<rparr>)) \<and>
   ((t = T1 \<or> t = T2) \<and> scoped_in_cs (pc (scoped_run sch scoped_init) t) \<longrightarrow>
      m (scoped_run sch scoped_init)) \<and>
   ((t = T1 \<or> t = T2) \<and> pc (scoped_run sch scoped_init) t = S_slk_dtor \<longrightarrow>
      \<not> m (scoped_sched t (scoped_run sch scoped_init)) \<and>
      pc (scoped_sched t (scoped_run sch scoped_init)) t = S_finished) \<and>
   ((t = T1 \<or> t = T2) \<and> scoped_step t (scoped_run sch scoped_init) = Some s'' \<and>
    pc s'' t = S_finished \<longrightarrow>
      pc (scoped_run sch scoped_init) t = S_slk_dtor \<and> m (scoped_run sch scoped_init) \<and>
      \<not> m s'') \<and>
   (\<not> scoped_in_cs (pc (scoped_run sch scoped_init) T1) \<and>
    \<not> scoped_in_cs (pc (scoped_run sch scoped_init) T2) \<longrightarrow>
      \<not> m (scoped_run sch scoped_init))"
proof -
  let ?r = "scoped_run sch scoped_init"
  have inv: "scoped_inv ?r" by (rule scoped_inv_reachable)
  then have held: "m ?r = (scoped_in_cs (pc ?r T1) \<or> scoped_in_cs (pc ?r T2))"
    by (simp add: scoped_inv_def)
  have a: "\<not> m s \<longrightarrow> lock_guard_scope block s =
      Some (fst (block (s\<lparr> m := True \<rparr>)), (snd (block (s\<lparr> m := True \<rparr>)))\<lparr> m := False \<rparr>)"
    by (simp add: lock_guard_scope_def scoped_lock_ctor_def scoped_lock_dtor_def lock_def
        unlock_def split: prod.splits)
  have b: "m s \<longrightarrow> lock_guard_scope block s = None"
    by (simp add: lock_guard_scope_def scoped_lock_ctor_def lock_def)
  have c: "lock_guard_scope block s = Some (e, s') \<longrightarrow> \<not> m s' \<and> lock (m s') = Some True"
    by (auto simp: lock_guard_scope_def scoped_lock_ctor_def scoped_lock_dtor_def lock_def
        unlock_def split: if_splits prod.splits)
  have d: "scoped_add_count_call body s = Some (e, s') \<longrightarrow>
      \<not> m s \<and> \<not> m s' \<and> e = fst (body (count s)) \<and> count s' = snd (body (count s))"
    by (auto simp: scoped_add_count_call_def lock_guard_scope_def scoped_lock_ctor_def
        scoped_lock_dtor_def lock_def unlock_def split: if_splits prod.splits)
  have f: "\<not> m s \<and> count s < 2147483647 \<longrightarrow>
      scoped_add_count_call count_plus_1 s = Some (Falls_through, s\<lparr> count := count s + 1 \<rparr>)"
    by (simp add: scoped_add_count_call_def lock_guard_scope_def scoped_lock_ctor_def
        scoped_lock_dtor_def lock_def unlock_def count_plus_1_def)
  have g: "(t = T1 \<or> t = T2) \<and> scoped_in_cs (pc ?r t) \<longrightarrow> m ?r"
    using held by auto
  have h: "(t = T1 \<or> t = T2) \<and> pc ?r t = S_slk_dtor \<longrightarrow>
      \<not> m (scoped_sched t ?r) \<and> pc (scoped_sched t ?r) t = S_finished"
    by (auto simp: scoped_sched_def scoped_step_def scoped_add_count_def
        scoped_lock_dtor_def unlock_def)
  have i: "(t = T1 \<or> t = T2) \<and> scoped_step t ?r = Some s'' \<and> pc s'' t = S_finished \<longrightarrow>
      pc ?r t = S_slk_dtor \<and> m ?r \<and> \<not> m s''"
  proof (intro impI, elim conjE)
    assume t: "t = T1 \<or> t = T2" and st: "scoped_step t ?r = Some s''"
      and fin: "pc s'' t = S_finished"
    from t st have ac: "scoped_add_count t ?r = Some s''" by (auto simp: scoped_step_def)
    with fin have at: "pc ?r t = S_slk_dtor"
      unfolding scoped_add_count_def
      by (cases "pc ?r t"; cases "m ?r"; auto simp: scoped_lock_ctor_def lock_def)
    with ac have "\<not> m s''"
      by (auto simp: scoped_add_count_def scoped_lock_dtor_def unlock_def)
    moreover from at t held have "m ?r" by (auto simp: scoped_in_cs_def)
    ultimately show "pc ?r t = S_slk_dtor \<and> m ?r \<and> \<not> m s''" using at by simp
  qed
  have j: "\<not> scoped_in_cs (pc ?r T1) \<and> \<not> scoped_in_cs (pc ?r T2) \<longrightarrow> \<not> m ?r"
    using held by simp
  from a b c d f g h i j show ?thesis by blast
qed

text \<open>
  The theorem at a block that raises when it finds \<^verbatim>\<open>m\<close> held and falls through when
  it finds \<^verbatim>\<open>m\<close> free, started when both threads exist and \<^verbatim>\<open>m\<close> is free: the block
  raises, so it ran with \<^verbatim>\<open>m\<close> held, and \<^verbatim>\<open>m\<close> is free afterwards. And at the schedule
  that brings \<open>T1\<close> to the end of its scope: \<^verbatim>\<open>m\<close> is held there and free after the step.
\<close>

theorem scoped_lock_released_on_every_exit_witness:
  "\<not> m (scoped_run [Main, Main] scoped_init) \<and>
   lock_guard_scope
     (\<lambda>s1. (if m s1 then Raises else Falls_through, s1\<lparr> count := count s1 + 1 \<rparr>))
     (scoped_run [Main, Main] scoped_init) =
     Some (Raises, (scoped_run [Main, Main] scoped_init)\<lparr> count := 1, m := False \<rparr>) \<and>
   pc (scoped_run [Main, Main, T1, T1, T1] scoped_init) T1 = S_slk_dtor \<and>
   m (scoped_run [Main, Main, T1, T1, T1] scoped_init) \<and>
   \<not> m (scoped_sched T1 (scoped_run [Main, Main, T1, T1, T1] scoped_init)) \<and>
   pc (scoped_sched T1 (scoped_run [Main, Main, T1, T1, T1] scoped_init)) T1 = S_finished"
proof -
  let ?s = "scoped_run [Main, Main] scoped_init"
  let ?blk = "\<lambda>s1 :: scoped_state.
    (if m s1 then Raises else Falls_through, s1\<lparr> count := count s1 + 1 \<rparr>)"
  have free: "\<not> m ?s" by (simp add: scoped_defs)
  have res: "Some (fst (?blk (?s\<lparr> m := True \<rparr>)), (snd (?blk (?s\<lparr> m := True \<rparr>)))\<lparr> m := False \<rparr>)
      = Some (Raises, ?s\<lparr> count := 1, m := False \<rparr>)"
    by (simp add: scoped_defs)
  have at: "pc (scoped_run [Main, Main, T1, T1, T1] scoped_init) T1 = S_slk_dtor"
    by (simp add: scoped_defs)
  have t: "T1 = T1 \<or> T1 = T2" by simp
  have inside: "scoped_in_cs S_slk_dtor" by (simp add: scoped_in_cs_def)
  from free res at t inside
    scoped_lock_released_on_every_exit [of ?s ?blk Raises "?s\<lparr> count := 1, m := False \<rparr>"
      count_plus_1 T1 "[Main, Main, T1, T1, T1]"]
  show ?thesis by simp
qed

text \<open>
  Claim C8. In mutex.cpp \<^verbatim>\<open>add_count\<close> releases \<^verbatim>\<open>m\<close> on the path that falls through
  and on no other: when the statement between \<^verbatim>\<open>m.lock()\<close> and \<^verbatim>\<open>m.unlock()\<close> raises (or
  returns), \<^verbatim>\<open>m\<close> is held when \<^verbatim>\<open>add_count\<close> has been left, every later call of
  \<^verbatim>\<open>add_count\<close> blocks, and in the running program \<^verbatim>\<open>m\<close> stays held under every
  schedule while no thread ever enters the locked region again. The same statement under
  the guard of scoped\_lock.cpp leaves \<^verbatim>\<open>m\<close> free.
\<close>

theorem mutex_add_count_raise_keeps_lock:
  "mutex_add_count_call body s = Some (e, s') \<Longrightarrow>
     (e = Falls_through \<longrightarrow> \<not> m s') \<and>
     (e \<noteq> Falls_through \<longrightarrow> m s' \<and> mutex_add_count_call body' s' = None) \<and>
     (e \<noteq> Falls_through \<and> \<not> mutex_in_cs (pc s T1) \<and> \<not> mutex_in_cs (pc s T2) \<longrightarrow>
        m (mutex_run sch s') \<and> \<not> mutex_in_cs (pc (mutex_run sch s') T1) \<and>
        \<not> mutex_in_cs (pc (mutex_run sch s') T2)) \<and>
     (\<forall>s''. scoped_add_count_call body s = Some (e, s'') \<longrightarrow> \<not> m s'') \<and>
     scoped_add_count_call body s \<noteq> None"
proof -
  assume call: "mutex_add_count_call body s = Some (e, s')"
  have a: "e = Falls_through \<longrightarrow> \<not> m s'"
    using call unfolding mutex_add_count_call_def
    by (auto simp: lock_def unlock_def split: if_splits prod.splits exit_path.splits)
  have b: "e \<noteq> Falls_through \<longrightarrow> m s'"
    using call unfolding mutex_add_count_call_def
    by (auto simp: lock_def unlock_def split: if_splits prod.splits exit_path.splits)
  have c: "e \<noteq> Falls_through \<longrightarrow> mutex_add_count_call body' s' = None"
    using b by (simp add: mutex_add_count_call_def lock_def)
  have pcs: "pc s' = pc s"
    using call unfolding mutex_add_count_call_def
    by (auto simp: lock_def unlock_def split: if_splits prod.splits exit_path.splits)
  have d: "e \<noteq> Falls_through \<and> \<not> mutex_in_cs (pc s T1) \<and> \<not> mutex_in_cs (pc s T2) \<longrightarrow>
        m (mutex_run sch s') \<and> \<not> mutex_in_cs (pc (mutex_run sch s') T1) \<and>
        \<not> mutex_in_cs (pc (mutex_run sch s') T2)"
  proof
    assume h: "e \<noteq> Falls_through \<and> \<not> mutex_in_cs (pc s T1) \<and> \<not> mutex_in_cs (pc s T2)"
    with b pcs have "mutex_stuck s'" by (simp add: mutex_stuck_def)
    then have "mutex_stuck (mutex_run sch s')" by (rule mutex_stuck_run)
    then show "m (mutex_run sch s') \<and> \<not> mutex_in_cs (pc (mutex_run sch s') T1) \<and>
        \<not> mutex_in_cs (pc (mutex_run sch s') T2)" by (simp add: mutex_stuck_def)
  qed
  have free: "\<not> m s"
    using call by (auto simp: mutex_add_count_call_def lock_def split: if_splits)
  have f: "\<forall>s''. scoped_add_count_call body s = Some (e, s'') \<longrightarrow> \<not> m s''"
    by (auto simp: scoped_add_count_call_def lock_guard_scope_def scoped_lock_ctor_def scoped_lock_dtor_def
        lock_def unlock_def split: if_splits prod.splits)
  have g: "scoped_add_count_call body s \<noteq> None"
    using free
    by (simp add: scoped_add_count_call_def lock_guard_scope_def scoped_lock_ctor_def lock_def split: prod.splits)
  from a b c d f g show ?thesis by blast
qed

text \<open>
  The theorem at a statement that raises, called when both threads have been started
  and \<^verbatim>\<open>m\<close> is free: \<^verbatim>\<open>m\<close> is held afterwards, and after the schedule that lets each
  thread and \<^verbatim>\<open>main\<close> try four times, both threads still wait in \<^verbatim>\<open>m.lock()\<close> and
  \<^verbatim>\<open>main\<close> still waits in \<^verbatim>\<open>t1.join()\<close>.
\<close>

theorem mutex_add_count_raise_keeps_lock_witness:
  "mutex_add_count_call (\<lambda>c. (Raises, c)) (mutex_run [Main, Main] mutex_init) =
     Some (Raises, (mutex_run [Main, Main] mutex_init)\<lparr> count := 0, m := True \<rparr>) \<and>
   m (mutex_run [T1, T2, Main, T1, T2, Main, T1, T2, Main, T1, T2, Main]
        ((mutex_run [Main, Main] mutex_init)\<lparr> count := 0, m := True \<rparr>)) \<and>
   pc (mutex_run [T1, T2, Main, T1, T2, Main, T1, T2, Main, T1, T2, Main]
        ((mutex_run [Main, Main] mutex_init)\<lparr> count := 0, m := True \<rparr>)) T1 = M_lock \<and>
   pc (mutex_run [T1, T2, Main, T1, T2, Main, T1, T2, Main, T1, T2, Main]
        ((mutex_run [Main, Main] mutex_init)\<lparr> count := 0, m := True \<rparr>)) T2 = M_lock \<and>
   pc (mutex_run [T1, T2, Main, T1, T2, Main, T1, T2, Main, T1, T2, Main]
        ((mutex_run [Main, Main] mutex_init)\<lparr> count := 0, m := True \<rparr>)) Main = M_join_t1"
proof -
  let ?s = "mutex_run [Main, Main] mutex_init"
  let ?sch = "[T1, T2, Main, T1, T2, Main, T1, T2, Main, T1, T2, Main]"
  have call: "mutex_add_count_call (\<lambda>c. (Raises, c)) ?s =
     Some (Raises, ?s\<lparr> count := 0, m := True \<rparr>)"
    by (simp add: mutex_add_count_call_def mutex_defs)
  have out: "\<not> mutex_in_cs (pc ?s T1) \<and> \<not> mutex_in_cs (pc ?s T2)"
    by (simp add: mutex_defs)
  have ne: "Raises \<noteq> Falls_through" by simp
  have pcs: "pc (mutex_run ?sch (?s\<lparr> count := 0, m := True \<rparr>)) T1 = M_lock \<and>
      pc (mutex_run ?sch (?s\<lparr> count := 0, m := True \<rparr>)) T2 = M_lock \<and>
      pc (mutex_run ?sch (?s\<lparr> count := 0, m := True \<rparr>)) Main = M_join_t1"
    by (simp add: mutex_defs)
  from call out ne pcs
    mutex_add_count_raise_keeps_lock [OF call, of "\<lambda>c. (Raises, c)" ?sch]
  show ?thesis by blast
qed

section \<open>Proofs for condition\_variable.cpp\<close>

lemma cv_holds_simps [simp]:
  "\<not> cv_holds C_not_started" "\<not> cv_holds A_slk_ctor" "cv_holds A_load" "cv_holds A_store"
  "cv_holds A_test" "cv_holds A_notify" "cv_holds A_slk_dtor" "\<not> cv_holds W_lk_ctor"
  "cv_holds W_wait_pred" "\<not> cv_holds W_blocked" "\<not> cv_holds W_relock" "cv_holds W_print"
  "cv_holds W_lk_dtor" "\<not> cv_holds C_finished" "\<not> cv_holds C_spawn_t1" "\<not> cv_holds C_spawn_t2"
  "\<not> cv_holds C_spawn_t3" "\<not> cv_holds C_join_t1" "\<not> cv_holds C_join_t2" "\<not> cv_holds C_join_t3"
  "\<not> cv_holds C_returned"
  by (simp_all add: cv_holds_def)

lemma cv_incremented_simps [simp]:
  "cv_incremented C_not_started = 0" "cv_incremented A_slk_ctor = 0" "cv_incremented A_load = 0"
  "cv_incremented A_store = 0" "cv_incremented A_test = 1" "cv_incremented A_notify = 1"
  "cv_incremented A_slk_dtor = 1" "cv_incremented C_finished = 1"
  by (simp_all add: cv_incremented_def)

lemma cv_incremented_range: "cv_incremented p = 0 \<or> cv_incremented p = 1"
  by (simp add: cv_incremented_def)

lemma adder_pc_simps [simp]:
  "adder_pc C_not_started" "adder_pc A_slk_ctor" "adder_pc A_load" "adder_pc A_store"
  "adder_pc A_test" "adder_pc A_notify" "adder_pc A_slk_dtor" "adder_pc C_finished"
  "\<not> adder_pc W_blocked"
  by (simp_all add: adder_pc_def)

lemma waiter_pc_simps [simp]:
  "waiter_pc C_not_started" "waiter_pc W_lk_ctor" "waiter_pc W_wait_pred" "waiter_pc W_blocked"
  "waiter_pc W_relock" "waiter_pc W_print" "waiter_pc W_lk_dtor" "waiter_pc C_finished"
  by (simp_all add: waiter_pc_def)

lemma cv_main_pc_simps [simp]:
  "cv_main_pc C_spawn_t1" "cv_main_pc C_spawn_t2" "cv_main_pc C_spawn_t3" "cv_main_pc C_join_t1"
  "cv_main_pc C_join_t2" "cv_main_pc C_join_t3" "cv_main_pc C_returned" "\<not> cv_main_pc W_blocked"
  by (simp_all add: cv_main_pc_def)

lemma notify_one_typed:
  "cv_typed s \<Longrightarrow>
   notify_one (pc s) = (if pc s T3 = W_blocked then (pc s)(T3 := W_relock) else pc s)"
  by (auto simp: cv_typed_def notify_one_def)

lemma cv_inv_init: "cv_inv cv_init"
  by (simp add: cv_inv_def cv_typed_def cv_lock_inv_def cv_count_inv_def cv_wait_inv_def
      cv_main_inv_def cv_init_def)

lemma cv_typed_main: "cv_typed s \<Longrightarrow> cv_main s = Some s' \<Longrightarrow> cv_typed s'"
  unfolding cv_main_def
  by (cases "pc s Main"; auto simp: cv_typed_def split: if_splits)

lemma cv_typed_waiter: "cv_typed s \<Longrightarrow> waiter_thread T3 s = Some s' \<Longrightarrow> cv_typed s'"
  unfolding waiter_thread_def cv_wait_def cv_wait_reacquire_def unique_lock_ctor_def
    unique_lock_dtor_def
  by (cases "pc s T3"; auto simp: cv_typed_def lock_def split: if_splits)

lemma cv_typed_adder:
  "cv_typed s \<Longrightarrow> t = T1 \<or> t = T2 \<Longrightarrow> add_count_and_notify t s = Some s' \<Longrightarrow> cv_typed s'"
  unfolding add_count_and_notify_def
  by (cases "pc s t"; frule notify_one_typed;
      auto simp: cv_typed_def scoped_lock_ctor_def lock_def split: if_splits)


lemma cv_lock_main: "cv_lock_inv s \<Longrightarrow> cv_main_inv s \<Longrightarrow> cv_main s = Some s' \<Longrightarrow> cv_lock_inv s'"
  unfolding cv_main_def
  by (cases "pc s Main"; auto simp: cv_lock_inv_def cv_main_inv_def split: if_splits)

lemma cv_lock_waiter: "cv_lock_inv s \<Longrightarrow> waiter_thread T3 s = Some s' \<Longrightarrow> cv_lock_inv s'"
  unfolding waiter_thread_def cv_wait_def cv_wait_reacquire_def unique_lock_ctor_def
    unique_lock_dtor_def
  by (cases "pc s T3"; auto simp: cv_lock_inv_def lock_def unlock_def split: if_splits)

lemma cv_lock_adder1:
  "cv_typed s \<Longrightarrow> cv_lock_inv s \<Longrightarrow> add_count_and_notify T1 s = Some s' \<Longrightarrow> cv_lock_inv s'"
  unfolding add_count_and_notify_def
  by (cases "pc s T1"; frule notify_one_typed;
      auto simp: cv_lock_inv_def scoped_lock_ctor_def scoped_lock_dtor_def lock_def unlock_def split: if_splits)

lemma cv_lock_adder2:
  "cv_typed s \<Longrightarrow> cv_lock_inv s \<Longrightarrow> add_count_and_notify T2 s = Some s' \<Longrightarrow> cv_lock_inv s'"
  unfolding add_count_and_notify_def
  by (cases "pc s T2"; frule notify_one_typed;
      auto simp: cv_lock_inv_def scoped_lock_ctor_def scoped_lock_dtor_def lock_def unlock_def split: if_splits)



lemma cv_count_main: "cv_count_inv s \<Longrightarrow> cv_main_inv s \<Longrightarrow> cv_main s = Some s' \<Longrightarrow> cv_count_inv s'"
  unfolding cv_main_def
  by (cases "pc s Main"; auto simp: cv_count_inv_def cv_main_inv_def split: if_splits)

lemma cv_count_waiter: "cv_count_inv s \<Longrightarrow> waiter_thread T3 s = Some s' \<Longrightarrow> cv_count_inv s'"
  unfolding waiter_thread_def cv_wait_def cv_wait_reacquire_def unique_lock_ctor_def
    unique_lock_dtor_def
  by (cases "pc s T3"; auto simp: cv_count_inv_def lock_def unlock_def split: if_splits)

lemma cv_count_adder1:
  "cv_typed s \<Longrightarrow> cv_lock_inv s \<Longrightarrow> cv_count_inv s \<Longrightarrow>
   add_count_and_notify T1 s = Some s' \<Longrightarrow> cv_count_inv s'"
  unfolding add_count_and_notify_def
  by (cases "pc s T1"; frule notify_one_typed;
      auto simp: cv_count_inv_def cv_lock_inv_def scoped_lock_ctor_def lock_def split: if_splits)

lemma cv_count_adder2:
  "cv_typed s \<Longrightarrow> cv_lock_inv s \<Longrightarrow> cv_count_inv s \<Longrightarrow>
   add_count_and_notify T2 s = Some s' \<Longrightarrow> cv_count_inv s'"
  unfolding add_count_and_notify_def
  by (cases "pc s T2"; frule notify_one_typed;
      auto simp: cv_count_inv_def cv_lock_inv_def scoped_lock_ctor_def lock_def split: if_splits)

lemma cv_main_main: "cv_typed s \<Longrightarrow> cv_main_inv s \<Longrightarrow> cv_main s = Some s' \<Longrightarrow> cv_main_inv s'"
  unfolding cv_main_def
  by (cases "pc s Main"; auto simp: cv_main_inv_def cv_typed_def split: if_splits)

lemma cv_main_waiter: "cv_typed s \<Longrightarrow> cv_main_inv s \<Longrightarrow> waiter_thread T3 s = Some s' \<Longrightarrow> cv_main_inv s'"
  unfolding waiter_thread_def cv_wait_def cv_wait_reacquire_def unique_lock_ctor_def
    unique_lock_dtor_def
  by (cases "pc s T3"; cases "m s"; cases "count s = 2"; clarsimp simp: cv_main_inv_def lock_def)

lemma cv_main_adder1:
  "cv_typed s \<Longrightarrow> cv_main_inv s \<Longrightarrow> add_count_and_notify T1 s = Some s' \<Longrightarrow> cv_main_inv s'"
  unfolding add_count_and_notify_def
  by (cases "pc s T1"; cases "m s"; frule notify_one_typed;
      clarsimp simp: cv_main_inv_def scoped_lock_ctor_def lock_def)

lemma cv_main_adder2:
  "cv_typed s \<Longrightarrow> cv_main_inv s \<Longrightarrow> add_count_and_notify T2 s = Some s' \<Longrightarrow> cv_main_inv s'"
  unfolding add_count_and_notify_def
  by (cases "pc s T2"; cases "m s"; frule notify_one_typed;
      clarsimp simp: cv_main_inv_def scoped_lock_ctor_def lock_def)




lemma cv_wait_main: "cv_wait_inv s \<Longrightarrow> cv_main_inv s \<Longrightarrow> cv_main s = Some s' \<Longrightarrow> cv_wait_inv s'"
  unfolding cv_main_def
  by (cases "pc s Main"; cases "pc s T1 = C_finished"; cases "pc s T2 = C_finished";
      cases "pc s T3 = C_finished"; clarsimp simp: cv_wait_inv_def cv_main_inv_def)

lemma cv_wait_waiter:
  "cv_wait_inv s \<Longrightarrow> cv_count_inv s \<Longrightarrow> waiter_thread T3 s = Some s' \<Longrightarrow> cv_wait_inv s'"
  using cv_incremented_range [of "pc s T1"] cv_incremented_range [of "pc s T2"]
  unfolding waiter_thread_def cv_wait_def cv_wait_reacquire_def unique_lock_ctor_def
    unique_lock_dtor_def
  by (cases "pc s T3"; cases "m s"; cases "count s = 2";
      clarsimp simp: cv_wait_inv_def cv_count_inv_def lock_def unlock_def; auto)

lemma cv_wait_adder1:
  "cv_typed s \<Longrightarrow> cv_lock_inv s \<Longrightarrow> cv_count_inv s \<Longrightarrow> cv_wait_inv s \<Longrightarrow>
   add_count_and_notify T1 s = Some s' \<Longrightarrow> cv_wait_inv s'"
  apply (frule notify_one_typed)
  apply (insert cv_incremented_range [of "pc s T1"] cv_incremented_range [of "pc s T2"])
  unfolding add_count_and_notify_def
  by (cases "pc s T1"; cases "m s"; cases "count s = 2";
      clarsimp simp: cv_wait_inv_def cv_count_inv_def cv_lock_inv_def
        scoped_lock_ctor_def lock_def; auto)

lemma cv_wait_adder2:
  "cv_typed s \<Longrightarrow> cv_lock_inv s \<Longrightarrow> cv_count_inv s \<Longrightarrow> cv_wait_inv s \<Longrightarrow>
   add_count_and_notify T2 s = Some s' \<Longrightarrow> cv_wait_inv s'"
  apply (frule notify_one_typed)
  apply (insert cv_incremented_range [of "pc s T1"] cv_incremented_range [of "pc s T2"])
  unfolding add_count_and_notify_def
  by (cases "pc s T2"; cases "m s"; cases "count s = 2";
      clarsimp simp: cv_wait_inv_def cv_count_inv_def cv_lock_inv_def
        scoped_lock_ctor_def lock_def; auto)


lemma cv_inv_step: "cv_inv s \<Longrightarrow> cv_step t s = Some s' \<Longrightarrow> cv_inv s'"
  unfolding cv_inv_def cv_step_def
  by (auto split: if_splits
      intro: cv_typed_main cv_typed_waiter cv_typed_adder cv_lock_main cv_lock_waiter
        cv_lock_adder1 cv_lock_adder2 cv_count_main cv_count_waiter cv_count_adder1
        cv_count_adder2 cv_main_main cv_main_waiter cv_main_adder1 cv_main_adder2
        cv_wait_main cv_wait_waiter cv_wait_adder1 cv_wait_adder2)

lemma cv_inv_spurious:
  "cv_inv s \<Longrightarrow> pc s t = W_blocked \<Longrightarrow> cv_inv (s\<lparr> pc := (pc s)(t := W_relock) \<rparr>)"
  by (cases t; clarsimp simp: cv_inv_def cv_typed_def cv_lock_inv_def cv_count_inv_def
      cv_wait_inv_def cv_main_inv_def)


lemma cv_inv_sched: "cv_inv s \<Longrightarrow> cv_inv (cv_sched e s)"
  by (cases e) (auto split: option.splits intro: cv_inv_step cv_inv_spurious)

lemma cv_inv_run: "cv_inv s \<Longrightarrow> cv_inv (cv_run es s)"
  by (induction es arbitrary: s) (simp_all add: cv_inv_sched)

lemma cv_inv_reachable: "cv_inv (cv_run es cv_init)"
  by (rule cv_inv_run [OF cv_inv_init])

lemma cv_main_decreases:
  "cv_main_inv s \<Longrightarrow> cv_main s = Some s' \<Longrightarrow> cv_measure s' < cv_measure s"
  unfolding cv_main_def
  by (cases "pc s Main"; clarsimp simp: cv_measure_def cv_main_inv_def split: if_splits)

lemma cv_waiter_decreases:
  "waiter_thread T3 s = Some s' \<Longrightarrow> cv_measure s' < cv_measure s"
  unfolding waiter_thread_def cv_wait_def cv_wait_reacquire_def unique_lock_ctor_def
    unique_lock_dtor_def
  by (cases "pc s T3"; cases "m s"; cases "count s = 2"; clarsimp simp: cv_measure_def lock_def)

lemma cv_adder_decreases:
  "cv_typed s \<Longrightarrow> t = T1 \<or> t = T2 \<Longrightarrow> add_count_and_notify t s = Some s' \<Longrightarrow>
   cv_measure s' < cv_measure s"
  apply (frule notify_one_typed)
  unfolding add_count_and_notify_def
  by (cases "pc s t"; cases "m s"; cases "count s = 2"; cases "pc s T3 = W_blocked";
      auto simp: cv_measure_def scoped_lock_ctor_def lock_def)

lemma cv_step_decreases: "cv_inv s \<Longrightarrow> cv_step t s = Some s' \<Longrightarrow> cv_measure s' < cv_measure s"
  unfolding cv_inv_def cv_step_def
  by (auto split: if_splits intro: cv_main_decreases cv_waiter_decreases cv_adder_decreases)

lemma cv_adder_blocked:
  "adder_pc (pc s t) \<Longrightarrow> add_count_and_notify t s = None \<Longrightarrow>
   pc s t = C_not_started \<or> pc s t = C_finished \<or> (pc s t = A_slk_ctor \<and> m s)"
  unfolding add_count_and_notify_def
  by (cases "pc s t"; cases "m s"; simp add: scoped_lock_ctor_def lock_def adder_pc_def)

lemma cv_waiter_blocked:
  "waiter_pc (pc s t) \<Longrightarrow> waiter_thread t s = None \<Longrightarrow>
   pc s t = C_not_started \<or> pc s t = C_finished \<or> pc s t = W_blocked \<or>
   ((pc s t = W_lk_ctor \<or> pc s t = W_relock) \<and> m s)"
  unfolding waiter_thread_def cv_wait_def cv_wait_reacquire_def unique_lock_ctor_def
    unique_lock_dtor_def
  by (cases "pc s t"; cases "m s"; simp add: lock_def waiter_pc_def split: if_splits)

lemma cv_main_blocked:
  "cv_main_pc (pc s Main) \<Longrightarrow> cv_main s = None \<Longrightarrow>
   pc s Main = C_returned \<or> (pc s Main = C_join_t1 \<and> pc s T1 \<noteq> C_finished) \<or>
   (pc s Main = C_join_t2 \<and> pc s T2 \<noteq> C_finished) \<or>
   (pc s Main = C_join_t3 \<and> pc s T3 \<noteq> C_finished)"
  unfolding cv_main_def
  by (cases "pc s Main"; simp add: cv_main_pc_def split: if_splits)

lemma cv_deadlock_free:
  assumes "cv_inv s" and "pc s Main \<noteq> C_returned"
  shows "cv_step Main s \<noteq> None \<or> cv_step T1 s \<noteq> None \<or> cv_step T2 s \<noteq> None \<or>
    cv_step T3 s \<noteq> None"
proof (rule ccontr)
  assume "\<not> ?thesis"
  then have n: "cv_main s = None" "add_count_and_notify T1 s = None"
    "add_count_and_notify T2 s = None" "waiter_thread T3 s = None"
    by (simp_all add: cv_step_def)
  from assms(1) have ty: "cv_typed s" and lk: "cv_lock_inv s" and ct: "cv_count_inv s"
    and wt: "cv_wait_inv s" and mn: "cv_main_inv s"
    by (simp_all add: cv_inv_def)
  from ty have t: "adder_pc (pc s T1)" "adder_pc (pc s T2)" "waiter_pc (pc s T3)"
    "cv_main_pc (pc s Main)"
    by (simp_all add: cv_typed_def)
  note b1 = cv_adder_blocked [OF t(1) n(2)]
  note b2 = cv_adder_blocked [OF t(2) n(3)]
  note b3 = cv_waiter_blocked [OF t(3) n(4)]
  note bm = cv_main_blocked [OF t(4) n(1)]
  from bm assms(2) mn have started: "pc s T1 \<noteq> C_not_started" "pc s T2 \<noteq> C_not_started"
    "pc s T3 \<noteq> C_not_started"
    by (auto simp: cv_main_inv_def)
  have free: "\<not> m s"
    using b1 b2 b3 started lk by (auto simp: cv_lock_inv_def)
  with b1 b2 started have f12: "pc s T1 = C_finished" "pc s T2 = C_finished" by auto
  with ct have c2: "count s = 2" by (simp add: cv_count_inv_def)
  from b3 started free wt c2 f12 have f3: "pc s T3 = C_finished"
    by (auto simp: cv_wait_inv_def)
  from bm assms(2) f12 f3 show False by auto
qed


lemma cv_run_append: "cv_run (es @ fs) s = cv_run fs (cv_run es s)"
  by (induction es arbitrary: s) simp_all

lemma cv_sched_step_le: "cv_inv s \<Longrightarrow> cv_measure (cv_sched (Step t) s) \<le> cv_measure s"
  by (auto split: option.splits dest: cv_step_decreases)

lemma cv_sched_step_lt:
  "cv_inv s \<Longrightarrow> cv_step t s \<noteq> None \<Longrightarrow> cv_measure (cv_sched (Step t) s) < cv_measure s"
  by (auto split: option.splits dest: cv_step_decreases)

lemma cv_sched_step_id: "cv_step t s = None \<Longrightarrow> cv_sched (Step t) s = s"
  by simp

lemma cv_round_decreases:
  assumes inv: "cv_inv s" and nr: "pc s Main \<noteq> C_returned"
  shows "cv_measure (cv_run cv_round s) < cv_measure s"
proof -
  let ?s1 = "cv_sched (Step Main) s"
  let ?s2 = "cv_sched (Step T1) ?s1"
  let ?s3 = "cv_sched (Step T2) ?s2"
  let ?s4 = "cv_sched (Step T3) ?s3"
  have i1: "cv_inv ?s1" using inv by (rule cv_inv_sched)
  have i2: "cv_inv ?s2" using i1 by (rule cv_inv_sched)
  have i3: "cv_inv ?s3" using i2 by (rule cv_inv_sched)
  have l1: "cv_measure ?s1 \<le> cv_measure s" using inv by (rule cv_sched_step_le)
  have l2: "cv_measure ?s2 \<le> cv_measure ?s1" using i1 by (rule cv_sched_step_le)
  have l3: "cv_measure ?s3 \<le> cv_measure ?s2" using i2 by (rule cv_sched_step_le)
  have l4: "cv_measure ?s4 \<le> cv_measure ?s3" using i3 by (rule cv_sched_step_le)
  have run: "cv_run cv_round s = ?s4" by (simp add: cv_round_def)
  have "cv_measure ?s4 < cv_measure s"
  proof (cases "cv_step Main s \<noteq> None")
    case True
    with inv have "cv_measure ?s1 < cv_measure s" by (rule cv_sched_step_lt)
    with l2 l3 l4 show ?thesis by linarith
  next
    case m0: False
    then have e1: "?s1 = s" by simp
    show ?thesis
    proof (cases "cv_step T1 s \<noteq> None")
      case True
      with e1 have "cv_step T1 ?s1 \<noteq> None" by simp
      with i1 have "cv_measure ?s2 < cv_measure ?s1" by (rule cv_sched_step_lt)
      with l1 l3 l4 show ?thesis by linarith
    next
      case a0: False
      then have e2: "?s2 = s" using e1 by simp
      show ?thesis
      proof (cases "cv_step T2 s \<noteq> None")
        case True
        with e2 have "cv_step T2 ?s2 \<noteq> None" by simp
        with i2 have "cv_measure ?s3 < cv_measure ?s2" by (rule cv_sched_step_lt)
        with l1 l2 l4 show ?thesis by linarith
      next
        case b0: False
        then have e3: "?s3 = s" using e2 by simp
        from cv_deadlock_free [OF inv nr] m0 a0 b0 have "cv_step T3 s \<noteq> None" by blast
        with e3 have "cv_step T3 ?s3 \<noteq> None" by simp
        with i3 have "cv_measure ?s4 < cv_measure ?s3" by (rule cv_sched_step_lt)
        with l1 l2 l3 show ?thesis by linarith
      qed
    qed
  qed
  with run show ?thesis by simp
qed

lemma cv_measure_zero: "cv_inv s \<Longrightarrow> cv_measure s = 0 \<Longrightarrow> pc s Main = C_returned"
  by (cases "pc s Main") (simp_all add: cv_measure_def cv_inv_def cv_typed_def cv_main_pc_def)

lemma cv_returned_step: "cv_inv s \<Longrightarrow> pc s Main = C_returned \<Longrightarrow> cv_step t s = None"
proof (rule ccontr)
  assume inv: "cv_inv s" and r: "pc s Main = C_returned" and "cv_step t s \<noteq> None"
  then obtain s' where st: "cv_step t s = Some s'" by auto
  from inv r have f: "pc s T1 = C_finished" "pc s T2 = C_finished" "pc s T3 = C_finished"
    by (simp_all add: cv_inv_def cv_main_inv_def)
  from st r f show False
    by (cases t) (simp_all add: cv_step_def cv_main_def add_count_and_notify_def waiter_thread_def cv_wait_def cv_wait_reacquire_def unique_lock_ctor_def
    unique_lock_dtor_def)
qed

lemma cv_returned_sched:
  "cv_inv s \<Longrightarrow> pc s Main = C_returned \<Longrightarrow> pc (cv_sched e s) Main = C_returned"
  by (cases e) (auto simp: cv_returned_step)

lemma cv_returned_run:
  "cv_inv s \<Longrightarrow> pc s Main = C_returned \<Longrightarrow> pc (cv_run es s) Main = C_returned"
  by (induction es arbitrary: s) (simp_all add: cv_inv_sched cv_returned_sched)

lemma cv_rounds_complete:
  "cv_inv s \<Longrightarrow> cv_measure s \<le> n \<Longrightarrow> pc (cv_run (cv_rounds n) s) Main = C_returned"
proof (induction n arbitrary: s)
  case 0
  then show ?case by (simp add: cv_measure_zero)
next
  case (Suc n)
  show ?case
  proof (cases "pc s Main = C_returned")
    case True
    with Suc.prems(1) show ?thesis by (rule cv_returned_run)
  next
    case False
    with Suc.prems have "cv_measure (cv_run cv_round s) \<le> n"
      using cv_round_decreases [of s] by simp
    moreover have "cv_inv (cv_run cv_round s)" using Suc.prems(1) by (rule cv_inv_run)
    ultimately have "pc (cv_run (cv_rounds n) (cv_run cv_round s)) Main = C_returned"
      by (rule Suc.IH [rotated])
    then show ?thesis by (simp add: cv_run_append)
  qed
qed

lemma cv_rank_bounds: "adder_pc p \<or> waiter_pc p \<Longrightarrow> cv_rank p \<le> 18"
  "cv_main_pc p \<Longrightarrow> cv_rank p \<le> 6"
  by (cases p; simp add: adder_pc_def waiter_pc_def cv_main_pc_def)+

lemma cv_measure_bound: "cv_inv s \<Longrightarrow> cv_measure s \<le> 60"
  using cv_rank_bounds(1) [of "pc s T1"] cv_rank_bounds(1) [of "pc s T2"]
    cv_rank_bounds(1) [of "pc s T3"] cv_rank_bounds(2) [of "pc s Main"]
  by (simp add: cv_inv_def cv_typed_def cv_measure_def)

lemma cv_fair_completion:
  "cv_inv s \<Longrightarrow> pc (cv_run (cv_rounds 60) s) Main = C_returned"
  by (rule cv_rounds_complete [OF _ cv_measure_bound])


lemmas cv_defs = cv_step_def cv_main_def add_count_and_notify_def waiter_thread_def cv_wait_def cv_wait_reacquire_def unique_lock_ctor_def
    unique_lock_dtor_def cv_init_def
  notify_one_def scoped_lock_ctor_def scoped_lock_dtor_def lock_def unlock_def cv_round_def

text \<open>
  Claim C3. In every state that condition\_variable.cpp reaches, under every schedule and
  any spurious wake-ups: the waiter evaluates its predicate holding \<^verbatim>\<open>m\<close>; when the
  predicate is false it releases \<^verbatim>\<open>m\<close> and suspends, when it is true \<^verbatim>\<open>wait\<close> returns
  with \<^verbatim>\<open>m\<close> held; a woken waiter acquires \<^verbatim>\<open>m\<close> and evaluates the predicate again; the
  waiter is past \<^verbatim>\<open>wait\<close> only if the counter is 2; a waiter suspended while the counter
  is 2 still has its notification to come; under a fair schedule the waiter does finish;
  and the only number it prints is 2.
\<close>

theorem wait_returns_only_when_count_is_2:
  "(pc (cv_run es cv_init) T3 = W_wait_pred \<longrightarrow> m (cv_run es cv_init)) \<and>
   (pc (cv_run es cv_init) T3 = W_wait_pred \<and> count (cv_run es cv_init) \<noteq> 2 \<longrightarrow>
      pc (cv_sched (Step T3) (cv_run es cv_init)) T3 = W_blocked \<and>
      \<not> m (cv_sched (Step T3) (cv_run es cv_init))) \<and>
   (pc (cv_run es cv_init) T3 = W_wait_pred \<and> count (cv_run es cv_init) = 2 \<longrightarrow>
      pc (cv_sched (Step T3) (cv_run es cv_init)) T3 = W_print \<and>
      m (cv_sched (Step T3) (cv_run es cv_init))) \<and>
   (pc (cv_run es cv_init) T3 = W_blocked \<longrightarrow>
      pc (cv_sched (Spurious_wakeup T3) (cv_run es cv_init)) T3 = W_relock) \<and>
   (pc (cv_run es cv_init) T3 = W_relock \<and> \<not> m (cv_run es cv_init) \<longrightarrow>
      pc (cv_sched (Step T3) (cv_run es cv_init)) T3 = W_wait_pred) \<and>
   (pc (cv_run es cv_init) T3 = W_print \<or> pc (cv_run es cv_init) T3 = W_lk_dtor \<or>
    pc (cv_run es cv_init) T3 = C_finished \<longrightarrow> count (cv_run es cv_init) = 2) \<and>
   (count (cv_run es cv_init) = 2 \<and> pc (cv_run es cv_init) T3 = W_blocked \<longrightarrow>
      pc (cv_run es cv_init) T1 = A_test \<or> pc (cv_run es cv_init) T1 = A_notify \<or>
      pc (cv_run es cv_init) T2 = A_test \<or> pc (cv_run es cv_init) T2 = A_notify) \<and>
   pc (cv_run (cv_rounds 60) (cv_run es cv_init)) T3 = C_finished \<and>
   out (cv_run (cv_rounds 60) (cv_run es cv_init)) = [2] \<and>
   (out (cv_run es cv_init) = [] \<or> out (cv_run es cv_init) = [2])"
proof -
  let ?s = "cv_run es cv_init"
  let ?f = "cv_run (cv_rounds 60) ?s"
  have inv: "cv_inv ?s" by (rule cv_inv_reachable)
  then have lk: "cv_lock_inv ?s" and wt: "cv_wait_inv ?s" by (simp_all add: cv_inv_def)
  have a: "pc ?s T3 = W_wait_pred \<longrightarrow> m ?s"
    using lk by (auto simp: cv_lock_inv_def)
  have b: "pc ?s T3 = W_wait_pred \<and> count ?s \<noteq> 2 \<longrightarrow>
      pc (cv_sched (Step T3) ?s) T3 = W_blocked \<and> \<not> m (cv_sched (Step T3) ?s)"
    by (simp add: cv_step_def waiter_thread_def cv_wait_def cv_wait_reacquire_def unique_lock_ctor_def
    unique_lock_dtor_def unlock_def)
  have c: "pc ?s T3 = W_wait_pred \<and> count ?s = 2 \<longrightarrow>
      pc (cv_sched (Step T3) ?s) T3 = W_print \<and> m (cv_sched (Step T3) ?s)"
    using a by (simp add: cv_step_def waiter_thread_def cv_wait_def cv_wait_reacquire_def unique_lock_ctor_def
    unique_lock_dtor_def)
  have d: "pc ?s T3 = W_blocked \<longrightarrow> pc (cv_sched (Spurious_wakeup T3) ?s) T3 = W_relock"
    by simp
  have e: "pc ?s T3 = W_relock \<and> \<not> m ?s \<longrightarrow> pc (cv_sched (Step T3) ?s) T3 = W_wait_pred"
    by (simp add: cv_step_def waiter_thread_def cv_wait_def cv_wait_reacquire_def unique_lock_ctor_def
    unique_lock_dtor_def lock_def)
  have f: "pc ?s T3 = W_print \<or> pc ?s T3 = W_lk_dtor \<or> pc ?s T3 = C_finished
      \<longrightarrow> count ?s = 2"
    using wt by (simp add: cv_wait_inv_def)
  have g: "count ?s = 2 \<and> pc ?s T3 = W_blocked \<longrightarrow>
      pc ?s T1 = A_test \<or> pc ?s T1 = A_notify \<or> pc ?s T2 = A_test \<or> pc ?s T2 = A_notify"
    using wt by (auto simp: cv_wait_inv_def)
  have fin: "cv_inv ?f" using inv by (rule cv_inv_run)
  have ret: "pc ?f Main = C_returned" using inv by (rule cv_fair_completion)
  with fin have h: "pc ?f T3 = C_finished" by (simp add: cv_inv_def cv_main_inv_def)
  with fin have i: "out ?f = [2]" by (simp add: cv_inv_def cv_wait_inv_def)
  have j: "out ?s = [] \<or> out ?s = [2]"
    using wt by (simp add: cv_wait_inv_def)
  from a b c d e f g h i j show ?thesis by blast
qed

text \<open>
  The theorem at two schedules: one in which the waiter comes first and finds the counter
  at 0, and one in which it suspends, is woken spuriously, suspends again, is notified by
  the second increment and returns from \<^verbatim>\<open>wait\<close>.
\<close>

theorem wait_returns_only_when_count_is_2_witness:
  "pc (cv_run [Step Main, Step Main, Step Main, Step T3] cv_init) T3 = W_wait_pred \<and>
   count (cv_run [Step Main, Step Main, Step Main, Step T3] cv_init) \<noteq> 2 \<and>
   m (cv_run [Step Main, Step Main, Step Main, Step T3] cv_init) \<and>
   pc (cv_sched (Step T3) (cv_run [Step Main, Step Main, Step Main, Step T3] cv_init)) T3
     = W_blocked \<and>
   \<not> m (cv_sched (Step T3) (cv_run [Step Main, Step Main, Step Main, Step T3] cv_init)) \<and>
   pc (cv_run [Step Main, Step Main, Step Main, Step T3, Step T3, Spurious_wakeup T3, Step T3,
         Step T3, Step T1, Step T1, Step T1, Step T1, Step T1, Step T2, Step T2, Step T2,
         Step T2, Step T2, Step T2, Step T3, Step T3] cv_init) T3 = W_print \<and>
   count (cv_run [Step Main, Step Main, Step Main, Step T3, Step T3, Spurious_wakeup T3, Step T3,
         Step T3, Step T1, Step T1, Step T1, Step T1, Step T1, Step T2, Step T2, Step T2,
         Step T2, Step T2, Step T2, Step T3, Step T3] cv_init) = 2"
proof -
  let ?e1 = "[Step Main, Step Main, Step Main, Step T3]"
  let ?e2 = "[Step Main, Step Main, Step Main, Step T3, Step T3, Spurious_wakeup T3, Step T3,
         Step T3, Step T1, Step T1, Step T1, Step T1, Step T1, Step T2, Step T2, Step T2,
         Step T2, Step T2, Step T2, Step T3, Step T3]"
  have p1: "pc (cv_run ?e1 cv_init) T3 = W_wait_pred \<and> count (cv_run ?e1 cv_init) \<noteq> 2"
    by (simp add: cv_defs)
  have p2: "pc (cv_run ?e2 cv_init) T3 = W_print"
    by (simp add: cv_defs)
  from p1 p2 wait_returns_only_when_count_is_2 [of ?e1] wait_returns_only_when_count_is_2 [of ?e2]
  show ?thesis by blast
qed

text \<open>
  Claim C10, as it is stated, lets the waiter terminate in every execution. It does not:
  after the schedule below the waiter is suspended, the counter is 0 and both
  incrementing threads are ready to take the mutex. From there a spurious wake-up, the
  waiter taking the mutex, each other thread scheduled once (the incrementing threads
  find the mutex held, \<^verbatim>\<open>main\<close> waits in \<^verbatim>\<open>t1.join()\<close>) and the waiter suspending again
  lead back to the same state. Repeated for ever, this is an execution in which every
  thread is scheduled again and again, the waiter never leaves \<^verbatim>\<open>wait\<close> and nothing is
  printed.
\<close>

theorem waiter_starved_counterexample:
  "cv_run [Spurious_wakeup T3, Step T3, Step T1, Step T2, Step Main, Step T3]
     (cv_run [Step Main, Step Main, Step Main, Step T3, Step T3] cv_init)
   = cv_run [Step Main, Step Main, Step Main, Step T3, Step T3] cv_init \<and>
   pc (cv_run [Step Main, Step Main, Step Main, Step T3, Step T3] cv_init) T3 = W_blocked \<and>
   pc (cv_run [Step Main, Step Main, Step Main, Step T3, Step T3] cv_init) T1 = A_slk_ctor \<and>
   pc (cv_run [Step Main, Step Main, Step Main, Step T3, Step T3] cv_init) T2 = A_slk_ctor \<and>
   \<not> m (cv_run [Step Main, Step Main, Step Main, Step T3, Step T3] cv_init) \<and>
   pc (cv_run [Step Main, Step Main, Step Main, Step T3, Step T3] cv_init) Main = C_join_t1 \<and>
   count (cv_run [Step Main, Step Main, Step Main, Step T3, Step T3] cv_init) = 0 \<and>
   out (cv_run [Step Main, Step Main, Step Main, Step T3, Step T3] cv_init) = []"
  by (simp add: cv_defs)

text \<open>
  Claim C10, amended. condition\_variable.cpp cannot get stuck, and it terminates under
  a fair schedule once spurious wake-ups have stopped: in every reachable state in which
  \<^verbatim>\<open>main\<close> has not returned some thread can take a step, every step lowers a measure that
  is at most 60, and a waiter that arrives when both increments are complete takes the
  mutex, finds the predicate true and goes on to print without suspending. From every
  reachable state, whatever spurious wake-ups came before, 60 rounds in which every
  thread is scheduled once end the program, the waiter has finished, and what has been
  printed is the number 2.
\<close>

theorem waiter_thread_terminates:
  "(pc (cv_run es cv_init) Main \<noteq> C_returned \<longrightarrow>
      cv_step Main (cv_run es cv_init) \<noteq> None \<or> cv_step T1 (cv_run es cv_init) \<noteq> None \<or>
      cv_step T2 (cv_run es cv_init) \<noteq> None \<or> cv_step T3 (cv_run es cv_init) \<noteq> None) \<and>
   (cv_step t (cv_run es cv_init) = Some s' \<longrightarrow> cv_measure s' < cv_measure (cv_run es cv_init)) \<and>
   cv_measure (cv_run es cv_init) \<le> 60 \<and>
   (pc (cv_run es cv_init) T1 = C_finished \<and> pc (cv_run es cv_init) T2 = C_finished \<and>
    pc (cv_run es cv_init) T3 = W_lk_ctor \<longrightarrow>
      pc (cv_run [Step T3] (cv_run es cv_init)) T3 = W_wait_pred \<and>
      pc (cv_run [Step T3, Step T3] (cv_run es cv_init)) T3 = W_print) \<and>
   pc (cv_run (cv_rounds 60) (cv_run es cv_init)) Main = C_returned \<and>
   pc (cv_run (cv_rounds 60) (cv_run es cv_init)) T3 = C_finished \<and>
   out (cv_run (cv_rounds 60) (cv_run es cv_init)) = [2] \<and>
   (pc (cv_run es cv_init) T3 = C_finished \<longrightarrow> out (cv_run es cv_init) = [2])"
proof -
  let ?s = "cv_run es cv_init"
  let ?f = "cv_run (cv_rounds 60) ?s"
  have inv: "cv_inv ?s" by (rule cv_inv_reachable)
  then have lk: "cv_lock_inv ?s" and wt: "cv_wait_inv ?s" and ct: "cv_count_inv ?s"
    by (simp_all add: cv_inv_def)
  have a: "pc ?s Main \<noteq> C_returned \<longrightarrow>
      cv_step Main ?s \<noteq> None \<or> cv_step T1 ?s \<noteq> None \<or> cv_step T2 ?s \<noteq> None \<or>
      cv_step T3 ?s \<noteq> None"
    using cv_deadlock_free [OF inv] by blast
  have b: "cv_step t ?s = Some s' \<longrightarrow> cv_measure s' < cv_measure ?s"
    using cv_step_decreases [OF inv] by blast
  have c: "cv_measure ?s \<le> 60" using inv by (rule cv_measure_bound)
  have d: "pc ?s T1 = C_finished \<and> pc ?s T2 = C_finished \<and> pc ?s T3 = W_lk_ctor \<longrightarrow>
      pc (cv_run [Step T3] ?s) T3 = W_wait_pred \<and>
      pc (cv_run [Step T3, Step T3] ?s) T3 = W_print"
    using lk ct
    by (clarsimp simp: cv_lock_inv_def cv_count_inv_def cv_step_def waiter_thread_def cv_wait_def cv_wait_reacquire_def unique_lock_ctor_def
    unique_lock_dtor_def lock_def)
  have fin: "cv_inv ?f" using inv by (rule cv_inv_run)
  have e: "pc ?f Main = C_returned" using inv by (rule cv_fair_completion)
  with fin have f: "pc ?f T3 = C_finished" by (simp add: cv_inv_def cv_main_inv_def)
  with fin have g: "out ?f = [2]" by (simp add: cv_inv_def cv_wait_inv_def)
  have h: "pc ?s T3 = C_finished \<longrightarrow> out ?s = [2]"
    using wt by (simp add: cv_wait_inv_def)
  from a b c d e f g h show ?thesis by blast
qed

text \<open>
  The theorem at the schedule in which both increments are complete before the waiter
  takes its first step.
\<close>

theorem waiter_thread_terminates_witness:
  "pc (cv_run [Step Main, Step Main, Step Main, Step T1, Step T1, Step T1, Step T1, Step T1,
         Step T2, Step T2, Step T2, Step T2, Step T2, Step T2] cv_init) T1 = C_finished \<and>
   pc (cv_run [Step Main, Step Main, Step Main, Step T1, Step T1, Step T1, Step T1, Step T1,
         Step T2, Step T2, Step T2, Step T2, Step T2, Step T2] cv_init) T2 = C_finished \<and>
   pc (cv_run [Step Main, Step Main, Step Main, Step T1, Step T1, Step T1, Step T1, Step T1,
         Step T2, Step T2, Step T2, Step T2, Step T2, Step T2] cv_init) T3 = W_lk_ctor \<and>
   pc (cv_run [Step T3, Step T3]
        (cv_run [Step Main, Step Main, Step Main, Step T1, Step T1, Step T1, Step T1, Step T1,
         Step T2, Step T2, Step T2, Step T2, Step T2, Step T2] cv_init)) T3 = W_print \<and>
   pc (cv_run (cv_rounds 60)
        (cv_run [Step Main, Step Main, Step Main, Step T1, Step T1, Step T1, Step T1, Step T1,
         Step T2, Step T2, Step T2, Step T2, Step T2, Step T2] cv_init)) Main = C_returned \<and>
   out (cv_run (cv_rounds 60)
        (cv_run [Step Main, Step Main, Step Main, Step T1, Step T1, Step T1, Step T1, Step T1,
         Step T2, Step T2, Step T2, Step T2, Step T2, Step T2] cv_init)) = [2]"
proof -
  let ?e = "[Step Main, Step Main, Step Main, Step T1, Step T1, Step T1, Step T1, Step T1,
         Step T2, Step T2, Step T2, Step T2, Step T2, Step T2]"
  have p: "pc (cv_run ?e cv_init) T1 = C_finished \<and> pc (cv_run ?e cv_init) T2 = C_finished \<and>
      pc (cv_run ?e cv_init) T3 = W_lk_ctor"
    by (simp add: cv_defs)
  from p waiter_thread_terminates [of ?e] show ?thesis by blast
qed

section \<open>Mutual exclusion\<close>

lemma cv_inv_excl:
  "cv_inv s \<Longrightarrow> t1 \<noteq> t2 \<Longrightarrow> \<not> (cv_holds (pc s t1) \<and> cv_holds (pc s t2))"
proof -
  assume inv: "cv_inv s" and ne: "t1 \<noteq> t2"
  then have x: "\<not> (cv_holds (pc s T1) \<and> cv_holds (pc s T2))"
    "\<not> (cv_holds (pc s T1) \<and> cv_holds (pc s T3))"
    "\<not> (cv_holds (pc s T2) \<and> cv_holds (pc s T3))"
    by (simp_all add: cv_inv_def cv_lock_inv_def)
  from inv have "cv_main_pc (pc s Main)" by (simp add: cv_inv_def cv_typed_def)
  then have m0: "\<not> cv_holds (pc s Main)" by (auto simp: cv_main_pc_def)
  from inv have o: "\<not> cv_holds (pc s T4)" "\<not> cv_holds (pc s T5)" "\<not> cv_holds (pc s T6)"
    by (simp_all add: cv_inv_def cv_typed_def)
  from ne x m0 o show ?thesis by (cases t1; cases t2; simp; blast)
qed


text \<open>
  Claim C1. In every state that mutex.cpp or scoped\_lock.cpp can reach, under every
  schedule, two distinct threads are never both inside the region protected by \<^verbatim>\<open>m\<close>;
  a thread that is inside holds the mutex, and the value it loaded from \<^verbatim>\<open>count\<close> is
  still the value of \<^verbatim>\<open>count\<close> when it stores the increment: the increment of the other
  thread does not come in between. The same exclusion holds for the third program that
  guards a \<^verbatim>\<open>std::mutex\<close>, condition\_variable.cpp: no two of its threads hold \<^verbatim>\<open>m\<close>
  together.
\<close>

theorem add_count_mutual_exclusion:
  "t1 \<noteq> t2 \<Longrightarrow>
     \<not> (mutex_in_cs (pc (mutex_run sch mutex_init) t1) \<and>
        mutex_in_cs (pc (mutex_run sch mutex_init) t2)) \<and>
     (mutex_in_cs (pc (mutex_run sch mutex_init) t1) \<longrightarrow> m (mutex_run sch mutex_init)) \<and>
     (pc (mutex_run sch mutex_init) t1 = M_store \<longrightarrow>
        reg (mutex_run sch mutex_init) t1 = count (mutex_run sch mutex_init)) \<and>
     \<not> (scoped_in_cs (pc (scoped_run sch' scoped_init) t1) \<and>
        scoped_in_cs (pc (scoped_run sch' scoped_init) t2)) \<and>
     (scoped_in_cs (pc (scoped_run sch' scoped_init) t1) \<longrightarrow> m (scoped_run sch' scoped_init)) \<and>
     (pc (scoped_run sch' scoped_init) t1 = S_store \<longrightarrow>
        reg (scoped_run sch' scoped_init) t1 = count (scoped_run sch' scoped_init)) \<and>
     \<not> (cv_holds (pc (cv_run es cv_init) t1) \<and> cv_holds (pc (cv_run es cv_init) t2))"
proof -
  assume ne: "t1 \<noteq> t2"
  let ?s = "mutex_run sch mutex_init" and ?r = "scoped_run sch' scoped_init"
  have im: "mutex_inv ?s" and ir: "scoped_inv ?r"
    by (rule mutex_inv_reachable, rule scoped_inv_reachable)
  have a: "\<not> (mutex_in_cs (pc ?s t1) \<and> mutex_in_cs (pc ?s t2))"
    by (rule mutex_inv_excl [OF im ne])
  have b: "mutex_in_cs (pc ?s t1) \<longrightarrow> m ?s"
    using im by (cases t1; simp add: mutex_inv_def mutex_in_cs_def; blast)
  have c: "pc ?s t1 = M_store \<longrightarrow> reg ?s t1 = count ?s"
    using im by (cases t1) (simp_all add: mutex_inv_def mutex_in_cs_def)
  have d: "\<not> (scoped_in_cs (pc ?r t1) \<and> scoped_in_cs (pc ?r t2))"
    by (rule scoped_inv_excl [OF ir ne])
  have e: "scoped_in_cs (pc ?r t1) \<longrightarrow> m ?r"
    using ir by (cases t1; simp add: scoped_inv_def scoped_in_cs_def; blast)
  have f: "pc ?r t1 = S_store \<longrightarrow> reg ?r t1 = count ?r"
    using ir by (cases t1) (simp_all add: scoped_inv_def scoped_in_cs_def)
  have g: "\<not> (cv_holds (pc (cv_run es cv_init) t1) \<and> cv_holds (pc (cv_run es cv_init) t2))"
    by (rule cv_inv_excl [OF cv_inv_reachable ne])
  from a b c d e f g show ?thesis by blast
qed

text \<open>
  The theorem at the schedule that starts both threads, lets \<open>T1\<close> take the lock and load
  the counter, and lets \<open>T2\<close> try the lock twice: \<open>T1\<close> is inside and \<open>T2\<close> still waits.
\<close>

theorem add_count_mutual_exclusion_witness:
  "T1 \<noteq> T2 \<and>
   mutex_in_cs (pc (mutex_run [Main, Main, T1, T2, T1, T2] mutex_init) T1) \<and>
   \<not> mutex_in_cs (pc (mutex_run [Main, Main, T1, T2, T1, T2] mutex_init) T2) \<and>
   m (mutex_run [Main, Main, T1, T2, T1, T2] mutex_init) \<and>
   scoped_in_cs (pc (scoped_run [Main, Main, T2, T1, T2, T1] scoped_init) T2) \<and>
   \<not> scoped_in_cs (pc (scoped_run [Main, Main, T2, T1, T2, T1] scoped_init) T1) \<and>
   m (scoped_run [Main, Main, T2, T1, T2, T1] scoped_init)"
proof -
  have ne: "T1 \<noteq> T2" by simp
  have i1: "mutex_in_cs (pc (mutex_run [Main, Main, T1, T2, T1, T2] mutex_init) T1)"
    by (simp add: mutex_defs)
  have i2: "scoped_in_cs (pc (scoped_run [Main, Main, T2, T1, T2, T1] scoped_init) T2)"
    by (simp add: scoped_defs)
  from ne i1 i2
    add_count_mutual_exclusion [OF ne, of "[Main, Main, T1, T2, T1, T2]"
      "[Main, Main, T2, T1, T2, T1]" "[]"]
    add_count_mutual_exclusion [OF ne [symmetric], of "[Main, Main, T1, T2, T1, T2]"
      "[Main, Main, T2, T1, T2, T1]" "[]"]
  show ?thesis by blast
qed

section \<open>Proofs for rwlock.cpp\<close>

lemma reading_simps [simp]:
  "\<not> reading R_not_started" "\<not> reading RV_lk_ctor" "reading RV_print" "reading RV_lk_dtor"
  "\<not> reading R_finished" "\<not> reading WV_lk_ctor" "\<not> reading WV_load" "\<not> reading WV_store"
  "\<not> reading WV_lk_dtor"
  by (simp_all add: reading_def)

lemma writing_simps [simp]:
  "\<not> writing R_not_started" "\<not> writing WV_lk_ctor" "writing WV_load" "writing WV_store"
  "writing WV_lk_dtor" "\<not> writing R_finished" "\<not> writing RV_lk_ctor" "\<not> writing RV_print"
  "\<not> writing RV_lk_dtor"
  by (simp_all add: writing_def)

lemma written_simps [simp]:
  "\<not> written R_not_started" "\<not> written WV_lk_ctor" "\<not> written WV_load" "\<not> written WV_store"
  "written WV_lk_dtor" "written R_finished"
  by (simp_all add: written_def)

lemma reader_pc_simps [simp]:
  "reader_pc R_not_started" "reader_pc RV_lk_ctor" "reader_pc RV_print" "reader_pc RV_lk_dtor"
  "reader_pc R_finished"
  by (simp_all add: reader_pc_def)

lemma writer_pc_simps [simp]:
  "writer_pc R_not_started" "writer_pc WV_lk_ctor" "writer_pc WV_load" "writer_pc WV_store"
  "writer_pc WV_lk_dtor" "writer_pc R_finished"
  by (simp_all add: writer_pc_def)

lemma rwlock_inv_init: "rwlock_inv rwlock_init"
  by (simp add: rwlock_inv_def rwlock_typed_def rwlock_lock_inv_def rwlock_count_inv_def
      rwlock_main_inv_def rwlock_init_def rwlock_main_pc_def)


lemma rwlock_typed_main: "rwlock_typed s \<Longrightarrow> rwlock_main s = Some s' \<Longrightarrow> rwlock_typed s'"
  unfolding rwlock_main_def rwlock_join_def
  by (cases "pc s Main"; clarsimp simp: rwlock_typed_def rwlock_main_pc_def split: if_splits)

lemma rwlock_typed_read:
  "rwlock_typed s \<Longrightarrow> t = T1 \<or> t = T3 \<or> t = T4 \<or> t = T6 \<Longrightarrow> read_value t s = Some s' \<Longrightarrow>
   rwlock_typed s'"
  unfolding read_value_def
  by (cases "pc s t"; cases "writer_active (m s)"; elim disjE;
      clarsimp simp: rwlock_typed_def lock_shared_def rwlock_main_pc_def)

lemma rwlock_typed_write:
  "rwlock_typed s \<Longrightarrow> t = T2 \<or> t = T5 \<Longrightarrow> write_value t s = Some s' \<Longrightarrow> rwlock_typed s'"
  unfolding write_value_def
  by (cases "pc s t"; elim disjE;
      clarsimp simp: rwlock_typed_def lock_exclusive_def rwlock_main_pc_def split: if_splits)

lemma rwlock_lock_main:
  "rwlock_lock_inv s \<Longrightarrow> rwlock_main_inv s \<Longrightarrow> rwlock_main s = Some s' \<Longrightarrow> rwlock_lock_inv s'"
  unfolding rwlock_main_def rwlock_join_def
  by (cases "pc s Main"; clarsimp simp: rwlock_lock_inv_def rwlock_main_inv_def split: if_splits;
      blast)

lemma rwlock_lock_read:
  "rwlock_lock_inv s \<Longrightarrow> t = T1 \<or> t = T3 \<or> t = T4 \<or> t = T6 \<Longrightarrow> read_value t s = Some s' \<Longrightarrow>
   rwlock_lock_inv s'"
  unfolding read_value_def
  by (cases "pc s t"; cases "writer_active (m s)"; elim disjE;
      clarsimp simp: rwlock_lock_inv_def lock_shared_def unlock_shared_def)

lemma rwlock_lock_write:
  "rwlock_lock_inv s \<Longrightarrow> t = T2 \<or> t = T5 \<Longrightarrow> write_value t s = Some s' \<Longrightarrow> rwlock_lock_inv s'"
  unfolding write_value_def
  by (cases "pc s t"; elim disjE;
      clarsimp simp: rwlock_lock_inv_def lock_exclusive_def unlock_exclusive_def split: if_splits)


lemma rwlock_count_main:
  "rwlock_count_inv s \<Longrightarrow> rwlock_main_inv s \<Longrightarrow> rwlock_main s = Some s' \<Longrightarrow>
   rwlock_count_inv s'"
  unfolding rwlock_main_def rwlock_join_def
  by (cases "pc s Main"; clarsimp simp: rwlock_count_inv_def rwlock_main_inv_def split: if_splits)

lemma rwlock_count_read:
  "rwlock_count_inv s \<Longrightarrow> t = T1 \<or> t = T3 \<or> t = T4 \<or> t = T6 \<Longrightarrow>
   read_value t s = Some s' \<Longrightarrow> rwlock_count_inv s'"
  unfolding read_value_def
  by (cases "pc s t"; cases "writer_active (m s)"; cases "written (pc s T2)";
      cases "written (pc s T5)"; elim disjE;
      clarsimp simp: rwlock_count_inv_def lock_shared_def)

lemma rwlock_count_write:
  "rwlock_lock_inv s \<Longrightarrow> rwlock_count_inv s \<Longrightarrow> t = T2 \<or> t = T5 \<Longrightarrow>
   write_value t s = Some s' \<Longrightarrow> rwlock_count_inv s'"
  unfolding write_value_def
  by (cases "pc s t"; elim disjE;
      clarsimp simp: rwlock_count_inv_def rwlock_lock_inv_def lock_exclusive_def split: if_splits;
      auto)

lemma rwlock_main_main:
  "rwlock_typed s \<Longrightarrow> rwlock_main_inv s \<Longrightarrow> rwlock_main s = Some s' \<Longrightarrow> rwlock_main_inv s'"
  unfolding rwlock_main_def rwlock_join_def
  by (cases "pc s Main"; clarsimp simp: rwlock_main_inv_def split: if_splits)

lemma rwlock_main_read:
  "rwlock_main_inv s \<Longrightarrow> t = T1 \<or> t = T3 \<or> t = T4 \<or> t = T6 \<Longrightarrow>
   read_value t s = Some s' \<Longrightarrow> rwlock_main_inv s'"
  unfolding read_value_def
  by (cases "pc s t"; cases "writer_active (m s)"; elim disjE;
      clarsimp simp: rwlock_main_inv_def lock_shared_def)

lemma rwlock_main_write:
  "rwlock_main_inv s \<Longrightarrow> t = T2 \<or> t = T5 \<Longrightarrow>
   write_value t s = Some s' \<Longrightarrow> rwlock_main_inv s'"
  unfolding write_value_def
  by (cases "pc s t"; elim disjE;
      clarsimp simp: rwlock_main_inv_def lock_exclusive_def split: if_splits)

lemma rwlock_inv_step: "rwlock_inv s \<Longrightarrow> rwlock_step t s = Some s' \<Longrightarrow> rwlock_inv s'"
proof -
  assume inv: "rwlock_inv s" and st: "rwlock_step t s = Some s'"
  from inv have ty: "rwlock_typed s" and lk: "rwlock_lock_inv s" and ct: "rwlock_count_inv s"
    and mn: "rwlock_main_inv s"
    by (simp_all add: rwlock_inv_def)
  consider (main) "t = Main" | (writer) "t = T2 \<or> t = T5"
    | (reader) "t = T1 \<or> t = T3 \<or> t = T4 \<or> t = T6"
    by (cases t) auto
  then show ?thesis
  proof cases
    case main
    with st have "rwlock_main s = Some s'" by (simp add: rwlock_step_def)
    with ty lk ct mn show ?thesis
      by (simp add: rwlock_inv_def rwlock_typed_main rwlock_lock_main rwlock_count_main
          rwlock_main_main)
  next
    case writer
    with st have "write_value t s = Some s'" by (auto simp: rwlock_step_def)
    with ty lk ct mn writer show ?thesis
      by (simp add: rwlock_inv_def rwlock_typed_write rwlock_lock_write rwlock_count_write
          rwlock_main_write)
  next
    case reader
    with st have "read_value t s = Some s'" by (auto simp: rwlock_step_def)
    with ty lk ct mn reader show ?thesis
      by (simp add: rwlock_inv_def rwlock_typed_read rwlock_lock_read rwlock_count_read
          rwlock_main_read)
  qed
qed

lemma rwlock_inv_sched: "rwlock_inv s \<Longrightarrow> rwlock_inv (rwlock_sched t s)"
  unfolding rwlock_sched_def by (auto split: option.splits intro: rwlock_inv_step)

lemma rwlock_inv_run: "rwlock_inv s \<Longrightarrow> rwlock_inv (rwlock_run sch s)"
  by (induction sch arbitrary: s) (simp_all add: rwlock_inv_sched)

lemma rwlock_inv_reachable: "rwlock_inv (rwlock_run sch rwlock_init)"
  by (rule rwlock_inv_run [OF rwlock_inv_init])

lemma rwlock_main_decreases:
  "rwlock_main_inv s \<Longrightarrow> rwlock_main s = Some s' \<Longrightarrow> rwlock_measure s' < rwlock_measure s"
  unfolding rwlock_main_def rwlock_join_def
  by (cases "pc s Main"; clarsimp simp: rwlock_measure_def rwlock_main_inv_def split: if_splits)

lemma rwlock_read_decreases:
  "t = T1 \<or> t = T3 \<or> t = T4 \<or> t = T6 \<Longrightarrow> read_value t s = Some s' \<Longrightarrow>
   rwlock_measure s' < rwlock_measure s"
  unfolding read_value_def
  by (cases "pc s t"; cases "writer_active (m s)"; elim disjE;
      clarsimp simp: rwlock_measure_def lock_shared_def)

lemma rwlock_write_decreases:
  "t = T2 \<or> t = T5 \<Longrightarrow> write_value t s = Some s' \<Longrightarrow>
   rwlock_measure s' < rwlock_measure s"
  unfolding write_value_def
  by (cases "pc s t"; elim disjE;
      clarsimp simp: rwlock_measure_def lock_exclusive_def split: if_splits)

lemma rwlock_step_decreases:
  "rwlock_inv s \<Longrightarrow> rwlock_step t s = Some s' \<Longrightarrow> rwlock_measure s' < rwlock_measure s"
  unfolding rwlock_step_def rwlock_inv_def
  by (cases t) (auto split: if_splits
      intro: rwlock_main_decreases rwlock_read_decreases rwlock_write_decreases)

lemma rwlock_read_blocked:
  "reader_pc (pc s t) \<Longrightarrow> read_value t s = None \<Longrightarrow>
   pc s t = R_not_started \<or> pc s t = R_finished \<or>
   (pc s t = RV_lk_ctor \<and> writer_active (m s))"
  unfolding read_value_def
  by (cases "pc s t"; cases "writer_active (m s)"; simp add: lock_shared_def reader_pc_def)

lemma rwlock_write_blocked:
  "writer_pc (pc s t) \<Longrightarrow> write_value t s = None \<Longrightarrow>
   pc s t = R_not_started \<or> pc s t = R_finished \<or>
   (pc s t = WV_lk_ctor \<and> (0 < reader_count (m s) \<or> writer_active (m s)))"
  unfolding write_value_def
  by (cases "pc s t"; simp add: lock_exclusive_def writer_pc_def split: if_splits)

lemma rwlock_main_blocked:
  "rwlock_main_pc (pc s Main) \<Longrightarrow> rwlock_main s = None \<Longrightarrow> pc s Main \<noteq> R_returned \<Longrightarrow>
   6 \<le> rwlock_main_index (pc s Main) \<and>
   \<not> (pc s T1 = R_finished \<and> pc s T2 = R_finished \<and> pc s T3 = R_finished \<and>
      pc s T4 = R_finished \<and> pc s T5 = R_finished \<and> pc s T6 = R_finished)"
  unfolding rwlock_main_def rwlock_join_def
  by (cases "pc s Main"; simp add: rwlock_main_pc_def split: if_splits)

lemma rwlock_deadlock_free:
  assumes "rwlock_inv s" and "pc s Main \<noteq> R_returned"
  shows "\<exists>t \<in> set rwlock_round. rwlock_step t s \<noteq> None"
proof (rule ccontr)
  assume "\<not> ?thesis"
  then have n: "rwlock_main s = None" "read_value T1 s = None" "write_value T2 s = None"
    "read_value T3 s = None" "read_value T4 s = None" "write_value T5 s = None"
    "read_value T6 s = None"
    by (simp_all add: rwlock_step_def rwlock_round_def)
  from assms(1) have ty: "rwlock_typed s" and lk: "rwlock_lock_inv s"
    and mn: "rwlock_main_inv s"
    by (simp_all add: rwlock_inv_def)
  from ty have t: "rwlock_main_pc (pc s Main)" "reader_pc (pc s T1)" "writer_pc (pc s T2)"
    "reader_pc (pc s T3)" "reader_pc (pc s T4)" "writer_pc (pc s T5)" "reader_pc (pc s T6)"
    by (simp_all add: rwlock_typed_def)
  note bm = rwlock_main_blocked [OF t(1) n(1) assms(2)]
  note b1 = rwlock_read_blocked [OF t(2) n(2)]
  note b2 = rwlock_write_blocked [OF t(3) n(3)]
  note b3 = rwlock_read_blocked [OF t(4) n(4)]
  note b4 = rwlock_read_blocked [OF t(5) n(5)]
  note b5 = rwlock_write_blocked [OF t(6) n(6)]
  note b6 = rwlock_read_blocked [OF t(7) n(7)]
  from bm mn have started: "pc s T1 \<noteq> R_not_started" "pc s T2 \<noteq> R_not_started"
    "pc s T3 \<noteq> R_not_started" "pc s T4 \<noteq> R_not_started" "pc s T5 \<noteq> R_not_started"
    "pc s T6 \<noteq> R_not_started"
    by (simp_all add: rwlock_main_inv_def)
  have nw: "\<not> writer_active (m s)"
    using b2 b5 started lk by (auto simp: rwlock_lock_inv_def)
  with b1 b3 b4 b6 started have fr: "pc s T1 = R_finished" "pc s T3 = R_finished"
    "pc s T4 = R_finished" "pc s T6 = R_finished"
    by auto
  with lk have "reader_count (m s) = 0" by (simp add: rwlock_lock_inv_def)
  with nw b2 b5 started have "pc s T2 = R_finished" "pc s T5 = R_finished" by auto
  with fr bm show False by simp
qed

lemma rwlock_run_append: "rwlock_run (ts @ us) s = rwlock_run us (rwlock_run ts s)"
  by (induction ts arbitrary: s) simp_all

lemma rwlock_sched_le: "rwlock_inv s \<Longrightarrow> rwlock_measure (rwlock_sched t s) \<le> rwlock_measure s"
  unfolding rwlock_sched_def by (auto split: option.splits dest: rwlock_step_decreases)

lemma rwlock_run_le: "rwlock_inv s \<Longrightarrow> rwlock_measure (rwlock_run ts s) \<le> rwlock_measure s"
proof (induction ts arbitrary: s)
  case Nil
  then show ?case by simp
next
  case (Cons t ts)
  have "rwlock_measure (rwlock_run ts (rwlock_sched t s)) \<le> rwlock_measure (rwlock_sched t s)"
    using Cons.prems by (intro Cons.IH rwlock_inv_sched)
  also have "\<dots> \<le> rwlock_measure s" using Cons.prems by (rule rwlock_sched_le)
  finally show ?case by simp
qed

lemma rwlock_some_step_decreases:
  "rwlock_inv s \<Longrightarrow> \<exists>t \<in> set ts. rwlock_step t s \<noteq> None \<Longrightarrow>
   rwlock_measure (rwlock_run ts s) < rwlock_measure s"
proof (induction ts arbitrary: s)
  case Nil
  then show ?case by simp
next
  case (Cons t ts)
  show ?case
  proof (cases "rwlock_step t s")
    case None
    then have same: "rwlock_sched t s = s" by (simp add: rwlock_sched_def)
    from None Cons.prems(2) have "\<exists>u \<in> set ts. rwlock_step u s \<noteq> None" by auto
    with Cons.prems(1) have "rwlock_measure (rwlock_run ts s) < rwlock_measure s"
      by (rule Cons.IH)
    with same show ?thesis by simp
  next
    case (Some s')
    then have next_state: "rwlock_sched t s = s'" by (simp add: rwlock_sched_def)
    from Cons.prems(1) Some have lt: "rwlock_measure s' < rwlock_measure s"
      by (rule rwlock_step_decreases)
    from Cons.prems(1) Some have "rwlock_inv s'" by (rule rwlock_inv_step)
    then have "rwlock_measure (rwlock_run ts s') \<le> rwlock_measure s'" by (rule rwlock_run_le)
    with lt next_state show ?thesis by simp
  qed
qed

lemma rwlock_measure_zero: "rwlock_inv s \<Longrightarrow> rwlock_measure s = 0 \<Longrightarrow> pc s Main = R_returned"
  by (cases "pc s Main")
    (simp_all add: rwlock_measure_def rwlock_inv_def rwlock_typed_def rwlock_main_pc_def)

lemma rwlock_returned_step:
  "rwlock_inv s \<Longrightarrow> pc s Main = R_returned \<Longrightarrow> rwlock_step t s = None"
proof -
  assume inv: "rwlock_inv s" and r: "pc s Main = R_returned"
  then have f: "pc s T1 = R_finished" "pc s T2 = R_finished" "pc s T3 = R_finished"
    "pc s T4 = R_finished" "pc s T5 = R_finished" "pc s T6 = R_finished"
    by (simp_all add: rwlock_inv_def rwlock_main_inv_def)
  from r f show ?thesis
    by (cases t) (simp_all add: rwlock_step_def rwlock_main_def read_value_def write_value_def)
qed

lemma rwlock_returned_run:
  "rwlock_inv s \<Longrightarrow> pc s Main = R_returned \<Longrightarrow> rwlock_run ts s = s"
  by (induction ts) (simp_all add: rwlock_sched_def rwlock_returned_step)

lemma rwlock_rounds_complete:
  "rwlock_inv s \<Longrightarrow> rwlock_measure s \<le> n \<Longrightarrow>
   pc (rwlock_run (rwlock_rounds n) s) Main = R_returned"
proof (induction n arbitrary: s)
  case 0
  then show ?case by (simp add: rwlock_measure_zero)
next
  case (Suc n)
  show ?case
  proof (cases "pc s Main = R_returned")
    case True
    with Suc.prems(1) show ?thesis by (simp add: rwlock_returned_run)
  next
    case False
    with Suc.prems(1) have "\<exists>t \<in> set rwlock_round. rwlock_step t s \<noteq> None"
      by (rule rwlock_deadlock_free)
    with Suc.prems(1) have "rwlock_measure (rwlock_run rwlock_round s) < rwlock_measure s"
      by (rule rwlock_some_step_decreases)
    with Suc.prems(2) have "rwlock_measure (rwlock_run rwlock_round s) \<le> n" by simp
    moreover have "rwlock_inv (rwlock_run rwlock_round s)"
      using Suc.prems(1) by (rule rwlock_inv_run)
    ultimately have "pc (rwlock_run (rwlock_rounds n) (rwlock_run rwlock_round s)) Main
        = R_returned"
      by (rule Suc.IH [rotated])
    then show ?thesis by (simp add: rwlock_run_append)
  qed
qed

lemma rwlock_rank_bounds:
  "reader_pc p \<or> writer_pc p \<Longrightarrow> rwlock_rank p \<le> 4"
  "rwlock_main_pc p \<Longrightarrow> rwlock_rank p \<le> 12"
  by (cases p; simp add: reader_pc_def writer_pc_def rwlock_main_pc_def)+

lemma rwlock_measure_bound: "rwlock_inv s \<Longrightarrow> rwlock_measure s \<le> 36"
  using rwlock_rank_bounds(1) [of "pc s T1"] rwlock_rank_bounds(1) [of "pc s T2"]
    rwlock_rank_bounds(1) [of "pc s T3"] rwlock_rank_bounds(1) [of "pc s T4"]
    rwlock_rank_bounds(1) [of "pc s T5"] rwlock_rank_bounds(1) [of "pc s T6"]
    rwlock_rank_bounds(2) [of "pc s Main"]
  by (simp add: rwlock_inv_def rwlock_typed_def rwlock_measure_def)

lemma rwlock_fair_completion:
  "rwlock_inv s \<Longrightarrow> pc (rwlock_run (rwlock_rounds 36) s) Main = R_returned"
  by (rule rwlock_rounds_complete [OF _ rwlock_measure_bound])


lemmas rwlock_defs = rwlock_sched_def rwlock_step_def rwlock_main_def rwlock_join_def
  read_value_def write_value_def rwlock_init_def lock_shared_def unlock_shared_def
  lock_exclusive_def unlock_exclusive_def

text \<open>
  Claim C4. In every state that rwlock.cpp reaches, under every schedule: an active writer
  implies a reader count of 0, a positive reader count implies no active writer, and the
  two never hold together. The reader count is the number of \<^verbatim>\<open>read_value\<close> threads that
  hold the shared lock and a writer is active exactly while a \<^verbatim>\<open>write_value\<close> thread
  holds the exclusive lock, so no thread is inside \<^verbatim>\<open>read_value\<close>'s scope while another
  is inside \<^verbatim>\<open>write_value\<close>'s, and the two writers are never inside together.
\<close>

theorem readers_exclude_writers:
  "(writer_active (m (rwlock_run sch rwlock_init)) \<longrightarrow>
      reader_count (m (rwlock_run sch rwlock_init)) = 0) \<and>
   (0 < reader_count (m (rwlock_run sch rwlock_init)) \<longrightarrow>
      \<not> writer_active (m (rwlock_run sch rwlock_init))) \<and>
   \<not> (0 < reader_count (m (rwlock_run sch rwlock_init)) \<and>
      writer_active (m (rwlock_run sch rwlock_init))) \<and>
   reader_count (m (rwlock_run sch rwlock_init)) =
      of_bool (reading (pc (rwlock_run sch rwlock_init) T1)) +
      of_bool (reading (pc (rwlock_run sch rwlock_init) T3)) +
      of_bool (reading (pc (rwlock_run sch rwlock_init) T4)) +
      of_bool (reading (pc (rwlock_run sch rwlock_init) T6)) \<and>
   writer_active (m (rwlock_run sch rwlock_init)) =
      (writing (pc (rwlock_run sch rwlock_init) T2) \<or>
       writing (pc (rwlock_run sch rwlock_init) T5)) \<and>
   \<not> (writing (pc (rwlock_run sch rwlock_init) T2) \<and>
      writing (pc (rwlock_run sch rwlock_init) T5)) \<and>
   ((r = T1 \<or> r = T3 \<or> r = T4 \<or> r = T6) \<and> (w = T2 \<or> w = T5) \<longrightarrow>
      \<not> (reading (pc (rwlock_run sch rwlock_init) r) \<and>
         writing (pc (rwlock_run sch rwlock_init) w)))"
proof -
  let ?s = "rwlock_run sch rwlock_init"
  have "rwlock_inv ?s" by (rule rwlock_inv_reachable)
  then have lk: "rwlock_lock_inv ?s" by (simp add: rwlock_inv_def)
  have a: "writer_active (m ?s) \<longrightarrow> reader_count (m ?s) = 0"
    using lk unfolding rwlock_lock_inv_def by blast
  then have b: "0 < reader_count (m ?s) \<longrightarrow> \<not> writer_active (m ?s)" by auto
  then have c: "\<not> (0 < reader_count (m ?s) \<and> writer_active (m ?s))" by blast
  have d: "reader_count (m ?s) = of_bool (reading (pc ?s T1)) + of_bool (reading (pc ?s T3)) +
      of_bool (reading (pc ?s T4)) + of_bool (reading (pc ?s T6))"
    using lk unfolding rwlock_lock_inv_def by blast
  have e: "writer_active (m ?s) = (writing (pc ?s T2) \<or> writing (pc ?s T5))"
    using lk unfolding rwlock_lock_inv_def by blast
  have f: "\<not> (writing (pc ?s T2) \<and> writing (pc ?s T5))"
    using lk unfolding rwlock_lock_inv_def by blast
  have g: "(r = T1 \<or> r = T3 \<or> r = T4 \<or> r = T6) \<and> (w = T2 \<or> w = T5) \<longrightarrow>
      \<not> (reading (pc ?s r) \<and> writing (pc ?s w))"
    using a d e by auto
  from a b c d e f g show ?thesis by blast
qed

text \<open>
  The theorem at two schedules: two readers hold the lock and the writer \<open>T2\<close> waits;
  the writer \<open>T2\<close> holds the lock and the readers \<open>T1\<close> and \<open>T3\<close> wait.
\<close>

theorem readers_exclude_writers_witness:
  "reader_count (m (rwlock_run [Main, Main, Main, Main, Main, Main, T1, T3, T2] rwlock_init)) = 2 \<and>
   \<not> writer_active (m (rwlock_run [Main, Main, Main, Main, Main, Main, T1, T3, T2] rwlock_init)) \<and>
   pc (rwlock_run [Main, Main, Main, Main, Main, Main, T1, T3, T2] rwlock_init) T2 = WV_lk_ctor \<and>
   writer_active (m (rwlock_run [Main, Main, Main, Main, Main, Main, T2, T1, T3] rwlock_init)) \<and>
   reader_count (m (rwlock_run [Main, Main, Main, Main, Main, Main, T2, T1, T3] rwlock_init)) = 0 \<and>
   pc (rwlock_run [Main, Main, Main, Main, Main, Main, T2, T1, T3] rwlock_init) T1 = RV_lk_ctor \<and>
   \<not> reading (pc (rwlock_run [Main, Main, Main, Main, Main, Main, T2, T1, T3] rwlock_init) T1)"
proof -
  let ?a = "[Main, Main, Main, Main, Main, Main, T1, T3, T2]"
  let ?b = "[Main, Main, Main, Main, Main, Main, T2, T1, T3]"
  have p: "reader_count (m (rwlock_run ?a rwlock_init)) = 2 \<and>
      pc (rwlock_run ?a rwlock_init) T2 = WV_lk_ctor"
    by (simp add: rwlock_defs)
  have q: "writer_active (m (rwlock_run ?b rwlock_init)) \<and>
      pc (rwlock_run ?b rwlock_init) T1 = RV_lk_ctor"
    by (simp add: rwlock_defs)
  have r: "T1 = T1 \<or> T1 = T3 \<or> T1 = T4 \<or> T1 = T6" "T2 = T2 \<or> T2 = T5" by simp_all
  from p q r readers_exclude_writers [of ?a T1 T2] readers_exclude_writers [of ?b T1 T2]
  show ?thesis by (simp add: reading_def)
qed

text \<open>
  Claim C9. In every state that rwlock.cpp reaches, under every schedule: every number
  that a \<^verbatim>\<open>read_value\<close> thread has printed is 0, 3 or 6; the counter is three times the
  number of completed writes; the value a writer has loaded is still the value of the
  counter when it stores, and while it is inside its scope no reader holds the lock; once
  \<^verbatim>\<open>main\<close> has joined all six threads the counter is 6. From every reachable state
  36 rounds of a fair schedule end \<^verbatim>\<open>main\<close>, with the counter at 6.
\<close>

theorem readers_observe_0_3_6:
  "set (out (rwlock_run sch rwlock_init)) \<subseteq> {0, 3, 6} \<and>
   (count (rwlock_run sch rwlock_init) = 0 \<or> count (rwlock_run sch rwlock_init) = 3 \<or>
    count (rwlock_run sch rwlock_init) = 6) \<and>
   count (rwlock_run sch rwlock_init) =
      3 * of_bool (written (pc (rwlock_run sch rwlock_init) T2)) +
      3 * of_bool (written (pc (rwlock_run sch rwlock_init) T5)) \<and>
   ((w = T2 \<or> w = T5) \<and> pc (rwlock_run sch rwlock_init) w = WV_store \<longrightarrow>
      reg (rwlock_run sch rwlock_init) w = count (rwlock_run sch rwlock_init)) \<and>
   ((w = T2 \<or> w = T5) \<and> writing (pc (rwlock_run sch rwlock_init) w) \<longrightarrow>
      writer_active (m (rwlock_run sch rwlock_init)) \<and>
      reader_count (m (rwlock_run sch rwlock_init)) = 0) \<and>
   (pc (rwlock_run sch rwlock_init) Main = R_returned \<longrightarrow>
      count (rwlock_run sch rwlock_init) = 6) \<and>
   pc (rwlock_run (rwlock_rounds 36) (rwlock_run sch rwlock_init)) Main = R_returned \<and>
   count (rwlock_run (rwlock_rounds 36) (rwlock_run sch rwlock_init)) = 6"
proof -
  let ?s = "rwlock_run sch rwlock_init"
  let ?f = "rwlock_run (rwlock_rounds 36) ?s"
  have inv: "rwlock_inv ?s" by (rule rwlock_inv_reachable)
  then have lk: "rwlock_lock_inv ?s" and ct: "rwlock_count_inv ?s" and mn: "rwlock_main_inv ?s"
    by (simp_all add: rwlock_inv_def)
  have a: "set (out ?s) \<subseteq> {0, 3, 6}"
    using ct unfolding rwlock_count_inv_def by blast
  have c: "count ?s = 3 * of_bool (written (pc ?s T2)) + 3 * of_bool (written (pc ?s T5))"
    using ct unfolding rwlock_count_inv_def by blast
  then have b: "count ?s = 0 \<or> count ?s = 3 \<or> count ?s = 6"
    by (cases "written (pc ?s T2)"; cases "written (pc ?s T5)"; simp)
  have d: "(w = T2 \<or> w = T5) \<and> pc ?s w = WV_store \<longrightarrow> reg ?s w = count ?s"
    using ct unfolding rwlock_count_inv_def by blast
  have e: "(w = T2 \<or> w = T5) \<and> writing (pc ?s w) \<longrightarrow>
      writer_active (m ?s) \<and> reader_count (m ?s) = 0"
    using lk unfolding rwlock_lock_inv_def by blast
  have joined: "\<And>u. rwlock_inv u \<Longrightarrow> pc u Main = R_returned \<Longrightarrow> count u = 6"
    by (simp add: rwlock_inv_def rwlock_main_inv_def rwlock_count_inv_def)
  have f: "pc ?s Main = R_returned \<longrightarrow> count ?s = 6"
    using joined [OF inv] by blast
  have fin: "rwlock_inv ?f" using inv by (rule rwlock_inv_run)
  have g: "pc ?f Main = R_returned" using inv by (rule rwlock_fair_completion)
  have h: "count ?f = 6" using fin g by (rule joined)
  from a b c d e f g h show ?thesis by blast
qed

text \<open>
  The theorem at a schedule that runs the program to its end, the readers printing 0, 3,
  3 and 6, and at a schedule in which \<open>T2\<close> is between its store and its unlock while
  \<open>T1\<close> waits.
\<close>

theorem readers_observe_0_3_6_witness:
  "pc (rwlock_run [Main, Main, Main, Main, Main, Main, T1, T1, T1, T2, T2, T2, T2, T3, T4, T3,
        T4, T3, T4, T5, T5, T5, T5, T6, T6, T6, Main, Main, Main, Main, Main, Main]
        rwlock_init) Main = R_returned \<and>
   out (rwlock_run [Main, Main, Main, Main, Main, Main, T1, T1, T1, T2, T2, T2, T2, T3, T4, T3,
        T4, T3, T4, T5, T5, T5, T5, T6, T6, T6, Main, Main, Main, Main, Main, Main]
        rwlock_init) = [0, 3, 3, 6] \<and>
   count (rwlock_run [Main, Main, Main, Main, Main, Main, T1, T1, T1, T2, T2, T2, T2, T3, T4, T3,
        T4, T3, T4, T5, T5, T5, T5, T6, T6, T6, Main, Main, Main, Main, Main, Main]
        rwlock_init) = 6 \<and>
   pc (rwlock_run [Main, Main, Main, Main, Main, Main, T2, T2, T1, T2] rwlock_init) T2
     = WV_lk_dtor \<and>
   reader_count (m (rwlock_run [Main, Main, Main, Main, Main, Main, T2, T2, T1, T2]
     rwlock_init)) = 0"
proof -
  let ?a = "[Main, Main, Main, Main, Main, Main, T1, T1, T1, T2, T2, T2, T2, T3, T4, T3,
        T4, T3, T4, T5, T5, T5, T5, T6, T6, T6, Main, Main, Main, Main, Main, Main]"
  let ?b = "[Main, Main, Main, Main, Main, Main, T2, T2, T1, T2]"
  have p: "pc (rwlock_run ?a rwlock_init) Main = R_returned \<and>
      out (rwlock_run ?a rwlock_init) = [0, 3, 3, 6]"
    by (simp add: rwlock_defs)
  have q: "pc (rwlock_run ?b rwlock_init) T2 = WV_lk_dtor"
    by (simp add: rwlock_defs)
  have r: "T2 = T2 \<or> T2 = T5" by simp
  from p q r readers_observe_0_3_6 [of ?a T2] readers_observe_0_3_6 [of ?b T2]
  show ?thesis by (simp add: writing_def)
qed

end
